theory Spec2Isabelle
  imports Main
begin

section \<open>Pixel grids, Python failures and calls\<close>

text \<open>
  A pixel grid is a Python list of rows, each a list of integer IDs; the source indexes it
  as \<^verbatim>\<open>pixel_grid[row][col]\<close>. Nothing in the source checks that the rows have equal
  length, so the model keeps ragged grids and makes every out-of-range index an
  \<open>IndexError\<close>.
\<close>

type_synonym grid = "int list list"

datatype error = IndexError | ValueError | KeyError

text \<open>
  The two sentinel IDs are module constants of \<^verbatim>\<open>sm_cubit.maths.pixel_maths\<close>, which is
  not part of the source at hand: they are taken as a parameter.
\<close>

record pixel_maths =
  VOID_PIXEL_ID :: int
  UNORIENTED_PIXEL_ID :: int

text \<open>
  What a call of one of the passes leaves behind: the contents of the list object that was
  passed as \<^verbatim>\<open>pixel_grid\<close> (the passes that work in place change it, also when they raise
  half way), the lines printed, and the exception raised or the value returned.
\<close>

record call =
  arg_after :: grid
  stdout :: "string list"
  outcome :: "error + grid"

definition px :: "grid \<Rightarrow> nat \<Rightarrow> nat \<Rightarrow> error + int" where
  "px g row col =
     (if row < length g \<and> col < length (g ! row) then Inr (g ! row ! col) else Inl IndexError)"

definition set_px :: "grid \<Rightarrow> nat \<Rightarrow> nat \<Rightarrow> int \<Rightarrow> error + grid" where
  "set_px g row col v =
     (if row < length g \<and> col < length (g ! row) then Inr (g[row := (g ! row)[col := v]])
      else Inl IndexError)"

text \<open>
  \<^verbatim>\<open>[n for n in ns if P(pixel_grid[n[1]][n[0]])]\<close>: a neighbour is a pair \<open>(x, y)\<close>, read as
  row \<open>y\<close>, column \<open>x\<close>; the first read out of range raises.
\<close>

fun select_px :: "grid \<Rightarrow> (int \<Rightarrow> bool) \<Rightarrow> (nat \<times> nat) list \<Rightarrow> error + (nat \<times> nat) list" where
  "select_px g P [] = Inr []"
| "select_px g P (n # ns) =
     (case px g (snd n) (fst n) of
        Inl e \<Rightarrow> Inl e
      | Inr v \<Rightarrow>
          (case select_px g P ns of
             Inl e \<Rightarrow> Inl e
           | Inr rest \<Rightarrow> Inr (if P v then n # rest else rest)))"

text \<open>\<^verbatim>\<open>[pixel_grid[n[1]][n[0]] for n in ns]\<close>\<close>

fun px_list :: "grid \<Rightarrow> (nat \<times> nat) list \<Rightarrow> error + int list" where
  "px_list g [] = Inr []"
| "px_list g (n # ns) =
     (case px g (snd n) (fst n) of
        Inl e \<Rightarrow> Inl e
      | Inr v \<Rightarrow> (case px_list g ns of Inl e \<Rightarrow> Inl e | Inr vs \<Rightarrow> Inr (v # vs)))"

text \<open>
  The generator behind \<^verbatim>\<open>random.randint\<close> is a sequence of raw draws \<open>rng\<close> and the number
  \<open>k\<close> of draws used so far. \<^verbatim>\<open>randint(a, b)\<close> raises \<open>ValueError\<close> on an empty range and
  otherwise returns some value of \<open>a..b\<close>: every such value is reached by some raw draw.
\<close>

definition randint :: "(nat \<Rightarrow> nat) \<Rightarrow> nat \<Rightarrow> int \<Rightarrow> int \<Rightarrow> error + int \<times> nat" where
  "randint rng k a b =
     (if b < a then Inl ValueError else Inr (a + int (rng k mod nat (b - a + 1)), Suc k))"

text \<open>
  A \<^verbatim>\<open>for\<close> loop whose body may raise: the body is a step on the loop's state, and a raise
  ends the loop with the state as it stood before the failing step (a step of the passes
  below writes only as its last action, after everything that can raise).
\<close>

fun for_each :: "('p \<Rightarrow> 's \<Rightarrow> error + 's) \<Rightarrow> 'p list \<Rightarrow> 's \<Rightarrow> (error \<times> 's) + 's" where
  "for_each f [] s = Inr s"
| "for_each f (p # ps) s =
     (case f p s of Inl e \<Rightarrow> Inl (e, s) | Inr s' \<Rightarrow> for_each f ps s')"

text \<open>
  \<^verbatim>\<open>for row in range(y_size): for col in range(x_size):\<close> visits the pairs \<open>(row, col)\<close> in
  row-major order.
\<close>

definition cells :: "nat \<Rightarrow> nat \<Rightarrow> (nat \<times> nat) list" where
  "cells x_size y_size = concat (map (\<lambda>row. map (\<lambda>col. (row, col)) [0..<x_size]) [0..<y_size])"

section \<open>The helpers of \<^verbatim>\<open>pixel_maths\<close>\<close>

text \<open>
  Modelled from the spec: \<^verbatim>\<open>pixel_maths.get_neighbours\<close> is not part of the source at
  hand. The spec: "\<^verbatim>\<open>neighbours(col, row, x_size, y_size)\<close>: bounded 8-adjacent cell
  coordinates, clipped at grid edges (no wraparound, no synthetic out-of-range
  neighbours)". A coordinate is a pair \<open>(x, y)\<close>; the enumeration order (by rows, then by
  columns) is a choice of this model.
\<close>

definition get_neighbours :: "nat \<Rightarrow> nat \<Rightarrow> nat \<Rightarrow> nat \<Rightarrow> (nat \<times> nat) list" where
  "get_neighbours x y x_size y_size =
     filter (\<lambda>n. n \<noteq> (x, y))
       (concat (map (\<lambda>y'. map (\<lambda>x'. (x', y')) [x - 1 ..< min x_size (x + 2)])
                  [y - 1 ..< min y_size (y + 2)]))"

text \<open>
  Modelled from the spec: \<^verbatim>\<open>pixel_maths.get_all_neighbours\<close> is not part of the source at
  hand. The spec: "\<^verbatim>\<open>halo(coords, x_size, y_size)\<close>: for a coordinate set representing one
  grain's extent, the deduplicated set of all bounded neighbours of any coordinate in the
  set that are not themselves members of the set". The halo is enumerated in the order in
  which the neighbours are first met.
\<close>

definition get_all_neighbours :: "nat list \<Rightarrow> nat list \<Rightarrow> nat \<Rightarrow> nat \<Rightarrow> (nat \<times> nat) list" where
  "get_all_neighbours x_list y_list x_size y_size =
     (let coords = zip x_list y_list in
      remdups (filter (\<lambda>n. n \<notin> set coords)
        (concat (map (\<lambda>c. get_neighbours (fst c) (snd c) x_size y_size) coords))))"

text \<open>
  Modelled from the spec: \<^verbatim>\<open>pixel_maths.get_void_pixel_grid\<close> is not part of the source at
  hand. The spec: "an independent output grid, initialized entirely to \<open>VOID_ID\<close>".
\<close>

definition get_void_pixel_grid :: "pixel_maths \<Rightarrow> nat \<Rightarrow> nat \<Rightarrow> grid" where
  "get_void_pixel_grid pm x_size y_size = replicate y_size (replicate x_size (VOID_PIXEL_ID pm))"

section \<open>\<^verbatim>\<open>clean_pixel_grid\<close>\<close>

text \<open>
  The second rule of the loop body: \<^verbatim>\<open>if pixel_grid[row][col] != VOID_PIXEL_ID and
  num_void > len(neighbours) / 2: pixel_grid[row][col] = VOID_PIXEL_ID\<close>. The division is
  Python's true division, so the test is \<open>n < 2 * num_void\<close>.
\<close>

definition remove_live :: "pixel_maths \<Rightarrow> grid \<Rightarrow> nat \<Rightarrow> nat \<Rightarrow> nat \<Rightarrow> nat \<Rightarrow> error + grid" where
  "remove_live pm g row col num_void n =
     (case px g row col of
        Inl e \<Rightarrow> Inl e
      | Inr v \<Rightarrow>
          (if v \<noteq> VOID_PIXEL_ID pm \<and> n < 2 * num_void then set_px g row col (VOID_PIXEL_ID pm)
           else Inr g))"

text \<open>The loop body at the cell \<open>p = (row, col)\<close>; the state is the grid and the draw count.\<close>

definition clean_cell ::
  "pixel_maths \<Rightarrow> (nat \<Rightarrow> nat) \<Rightarrow> nat \<Rightarrow> nat \<Rightarrow> nat \<times> nat \<Rightarrow> grid \<times> nat \<Rightarrow> error + grid \<times> nat" where
  "clean_cell pm rng x_size y_size p s =
     (let row = fst p; col = snd p; g = fst s; k = snd s in
      (case px g row col of
        Inl e \<Rightarrow> Inl e
      | Inr v \<Rightarrow>
          (if v = UNORIENTED_PIXEL_ID pm then Inr s
           else
             (let neighbours = get_neighbours col row x_size y_size in
              (case select_px g (\<lambda>u. u = VOID_PIXEL_ID pm) neighbours of
                 Inl e \<Rightarrow> Inl e
               | Inr void_neighbours \<Rightarrow>
                   (let num_void = length void_neighbours in
                    (if v = VOID_PIXEL_ID pm \<and> 2 * num_void \<le> length neighbours then
                       (case randint rng k 0 (int (length neighbours) - 1) of
                          Inl e \<Rightarrow> Inl e
                        | Inr (r, k') \<Rightarrow>
                            (let copy = neighbours ! nat r in
                             (case px g (snd copy) (fst copy) of
                                Inl e \<Rightarrow> Inl e
                              | Inr c \<Rightarrow>
                                  (if c = UNORIENTED_PIXEL_ID pm then Inr (g, k')
                                   else
                                     (case set_px g row col c of
                                        Inl e \<Rightarrow> Inl e
                                      | Inr g' \<Rightarrow>
                                          (case remove_live pm g' row col num_void (length neighbours) of
                                             Inl e \<Rightarrow> Inl e
                                           | Inr g'' \<Rightarrow> Inr (g'', k')))))))
                     else
                       (case remove_live pm g row col num_void (length neighbours) of
                          Inl e \<Rightarrow> Inl e
                        | Inr g' \<Rightarrow> Inr (g', k)))))))))"

text \<open>
  The result of an in-place pass from the result of its loop: the argument object holds
  the loop's grid, whether the loop raised or ended.
\<close>

definition in_place :: "(error \<times> grid \<times> nat) + grid \<times> nat \<Rightarrow> call" where
  "in_place r =
     (case r of
        Inl (e, s) \<Rightarrow> \<lparr>arg_after = fst s, stdout = [], outcome = Inl e\<rparr>
      | Inr s \<Rightarrow> \<lparr>arg_after = fst s, stdout = [], outcome = Inr (fst s)\<rparr>)"

text \<open>\<^verbatim>\<open>x_size = len(pixel_grid[0])\<close> raises \<open>IndexError\<close> on the empty grid.\<close>

definition clean_pixel_grid :: "pixel_maths \<Rightarrow> (nat \<Rightarrow> nat) \<Rightarrow> grid \<Rightarrow> call" where
  "clean_pixel_grid pm rng pixel_grid =
     (case pixel_grid of
        [] \<Rightarrow> \<lparr>arg_after = pixel_grid, stdout = [], outcome = Inl IndexError\<rparr>
      | row0 # _ \<Rightarrow>
          (let x_size = length row0; y_size = length pixel_grid in
           in_place (for_each (clean_cell pm rng x_size y_size) (cells x_size y_size) (pixel_grid, 0))))"

section \<open>\<^verbatim>\<open>smoothen_edges\<close>\<close>

definition smoothen_cell ::
  "pixel_maths \<Rightarrow> (nat \<Rightarrow> nat) \<Rightarrow> nat \<Rightarrow> nat \<Rightarrow> nat \<times> nat \<Rightarrow> grid \<times> nat \<Rightarrow> error + grid \<times> nat" where
  "smoothen_cell pm rng x_size y_size p s =
     (let row = fst p; col = snd p; g = fst s; k = snd s in
      (case px g row col of
        Inl e \<Rightarrow> Inl e
      | Inr v \<Rightarrow>
          (if v = UNORIENTED_PIXEL_ID pm then Inr s
           else
             (let neighbours = get_neighbours col row x_size y_size in
              (case select_px g (\<lambda>u. u \<noteq> v) neighbours of
                 Inl e \<Rightarrow> Inl e
               | Inr foreign_neighbours \<Rightarrow>
                   (if 2 < length foreign_neighbours then
                      (case randint rng k 0 (int (length foreign_neighbours) - 1) of
                         Inl e \<Rightarrow> Inl e
                       | Inr (r, k') \<Rightarrow>
                           (let foreign = foreign_neighbours ! nat r in
                            (case px g (snd foreign) (fst foreign) of
                               Inl e \<Rightarrow> Inl e
                             | Inr c \<Rightarrow>
                                 (if c = UNORIENTED_PIXEL_ID pm then Inr (g, k')
                                  else
                                    (case set_px g row col c of
                                       Inl e \<Rightarrow> Inl e
                                     | Inr g' \<Rightarrow> Inr (g', k'))))))
                    else Inr s))))))"

definition smoothen_edges :: "pixel_maths \<Rightarrow> (nat \<Rightarrow> nat) \<Rightarrow> grid \<Rightarrow> call" where
  "smoothen_edges pm rng pixel_grid =
     (case pixel_grid of
        [] \<Rightarrow> \<lparr>arg_after = pixel_grid, stdout = [], outcome = Inl IndexError\<rparr>
      | row0 # _ \<Rightarrow>
          (let x_size = length row0; y_size = length pixel_grid in
           in_place (for_each (smoothen_cell pm rng x_size y_size) (cells x_size y_size) (pixel_grid, 0))))"

section \<open>\<^verbatim>\<open>pad_edges\<close>\<close>

text \<open>
  The loop reads the argument \<open>pixel_grid\<close> and writes the fresh grid; the state is the
  fresh grid and the draw count.
\<close>

definition pad_cell ::
  "pixel_maths \<Rightarrow> (nat \<Rightarrow> nat) \<Rightarrow> grid \<Rightarrow> nat \<Rightarrow> nat \<Rightarrow> nat \<times> nat \<Rightarrow> grid \<times> nat \<Rightarrow> error + grid \<times> nat" where
  "pad_cell pm rng pixel_grid x_size y_size p s =
     (let row = fst p; col = snd p; padded_pixel_grid = fst s; k = snd s in
      (case px pixel_grid row col of
        Inl e \<Rightarrow> Inl e
      | Inr v \<Rightarrow>
          (if v \<noteq> VOID_PIXEL_ID pm then
             (case set_px padded_pixel_grid row col v of
                Inl e \<Rightarrow> Inl e
              | Inr padded' \<Rightarrow> Inr (padded', k))
           else
             (let neighbours = get_neighbours col row x_size y_size in
              (case select_px pixel_grid (\<lambda>u. u \<noteq> VOID_PIXEL_ID pm) neighbours of
                 Inl e \<Rightarrow> Inl e
               | Inr live_neighbours \<Rightarrow>
                   (if 0 < length live_neighbours then
                      (case randint rng k 0 (int (length live_neighbours) - 1) of
                         Inl e \<Rightarrow> Inl e
                       | Inr (r, k') \<Rightarrow>
                           (let copy = live_neighbours ! nat r in
                            (case px pixel_grid (snd copy) (fst copy) of
                               Inl e \<Rightarrow> Inl e
                             | Inr c \<Rightarrow>
                                 (case set_px padded_pixel_grid row col c of
                                    Inl e \<Rightarrow> Inl e
                                  | Inr padded' \<Rightarrow> Inr (padded', k')))))
                    else Inr s))))))"

definition pad_edges :: "pixel_maths \<Rightarrow> (nat \<Rightarrow> nat) \<Rightarrow> grid \<Rightarrow> call" where
  "pad_edges pm rng pixel_grid =
     (case pixel_grid of
        [] \<Rightarrow> \<lparr>arg_after = pixel_grid, stdout = [], outcome = Inl IndexError\<rparr>
      | row0 # _ \<Rightarrow>
          (let x_size = length row0; y_size = length pixel_grid;
               padded_pixel_grid = get_void_pixel_grid pm x_size y_size in
           (case for_each (pad_cell pm rng pixel_grid x_size y_size) (cells x_size y_size)
                   (padded_pixel_grid, 0) of
              Inl (e, s) \<Rightarrow> \<lparr>arg_after = pixel_grid, stdout = [], outcome = Inl e\<rparr>
            | Inr s \<Rightarrow> \<lparr>arg_after = pixel_grid, stdout = [], outcome = Inr (fst s)\<rparr>)))"

section \<open>\<^verbatim>\<open>get_sorted_grain_id_list\<close>\<close>

text \<open>
  Python leaves the order in which a \<^verbatim>\<open>set\<close> is iterated to the implementation. The
  model takes it as a parameter \<open>set_iter\<close>: \<open>set_iter xs\<close> is the sequence in which
  \<^verbatim>\<open>set(xs)\<close> yields its elements. Whatever the order, the elements are those of \<open>xs\<close>,
  each once.
\<close>

definition set_iter_ok :: "(int list \<Rightarrow> int list) \<Rightarrow> bool" where
  "set_iter_ok set_iter = (\<forall>xs. distinct (set_iter xs) \<and> set (set_iter xs) = set xs)"

definition get_sorted_grain_id_list ::
  "pixel_maths \<Rightarrow> (int list \<Rightarrow> int list) \<Rightarrow> grid \<Rightarrow> int list \<times> int list" where
  "get_sorted_grain_id_list pm set_iter pixel_grid =
     (let flattened = concat pixel_grid;
          id_list = set_iter flattened;
          id_list = (if VOID_PIXEL_ID pm \<in> set id_list then remove1 (VOID_PIXEL_ID pm) id_list
                     else id_list)
      in (sort id_list, flattened))"

section \<open>\<^verbatim>\<open>remove_small_grains\<close>\<close>

text \<open>
  \<^verbatim>\<open>max(s, key=f)\<close> raises \<open>ValueError\<close> on an empty iterable and otherwise returns the
  first element, in iteration order, at which the key is largest.
\<close>

definition max_by_key :: "(int \<Rightarrow> nat) \<Rightarrow> int list \<Rightarrow> error + int" where
  "max_by_key key xs =
     (case xs of
        [] \<Rightarrow> Inl ValueError
      | x # rest \<Rightarrow> Inr (fold (\<lambda>y best. if key best < key y then y else best) rest x))"

text \<open>
  \<^verbatim>\<open>for i in range(len(x_list)): pixel_grid[y_list[i]][x_list[i]] = most_neighbouring\<close>
\<close>

definition replace_coordinates :: "grid \<Rightarrow> (nat \<times> nat) list \<Rightarrow> int \<Rightarrow> error + grid" where
  "replace_coordinates g coords v =
     (case for_each (\<lambda>c g'. set_px g' (snd c) (fst c) v) coords g of
        Inl (e, _) \<Rightarrow> Inl e
      | Inr g' \<Rightarrow> Inr g')"

text \<open>
  The body of the loop over \<open>id_list\<close> (\<open>grain_id\<close> is the source's \<^verbatim>\<open>id\<close>). The coordinates of the grain are gathered by rows
  from the grid as it stands; \<open>flattened\<close> is the list computed before the loop.
\<close>

definition remove_grain ::
  "(int list \<Rightarrow> int list) \<Rightarrow> int list \<Rightarrow> int \<Rightarrow> nat \<Rightarrow> nat \<Rightarrow> int \<Rightarrow> grid \<Rightarrow> error + grid" where
  "remove_grain set_iter flattened threshold x_size y_size grain_id g =
     (if threshold \<le> int (count_list flattened grain_id) then Inr g
      else
        (case select_px g (\<lambda>u. u = grain_id) (map (\<lambda>c. (snd c, fst c)) (cells x_size y_size)) of
           Inl e \<Rightarrow> Inl e
         | Inr coords \<Rightarrow>
             (let x_list = map fst coords; y_list = map snd coords;
                  neighbours = get_all_neighbours x_list y_list x_size y_size in
              (case px_list g neighbours of
                 Inl e \<Rightarrow> Inl e
               | Inr neighbour_ids \<Rightarrow>
                   (case max_by_key (count_list neighbour_ids) (set_iter neighbour_ids) of
                      Inl e \<Rightarrow> Inl e
                    | Inr most_neighbouring \<Rightarrow>
                        replace_coordinates g (zip x_list y_list) most_neighbouring)))))"

definition remove_small_grains ::
  "pixel_maths \<Rightarrow> (int list \<Rightarrow> int list) \<Rightarrow> grid \<Rightarrow> int \<Rightarrow> call" where
  "remove_small_grains pm set_iter pixel_grid threshold =
     (let id_list = fst (get_sorted_grain_id_list pm set_iter pixel_grid);
          flattened = snd (get_sorted_grain_id_list pm set_iter pixel_grid) in
      (case pixel_grid of
         [] \<Rightarrow> \<lparr>arg_after = pixel_grid, stdout = [], outcome = Inl IndexError\<rparr>
       | row0 # _ \<Rightarrow>
           (let x_size = length row0; y_size = length pixel_grid in
            (case for_each (remove_grain set_iter flattened threshold x_size y_size) id_list
                    pixel_grid of
               Inl (e, g) \<Rightarrow> \<lparr>arg_after = g, stdout = [], outcome = Inl e\<rparr>
             | Inr g \<Rightarrow> \<lparr>arg_after = g, stdout = [], outcome = Inr g\<rparr>))))"

section \<open>\<^verbatim>\<open>merge_grains\<close>\<close>

text \<open>
  The grain map is a dictionary from grain IDs to grain objects, of which the pass uses
  only \<^verbatim>\<open>get_orientation()\<close>: the model maps an ID to its orientation, a list of numbers.
  A missing ID raises \<open>KeyError\<close>, an orientation with fewer than three components
  \<open>IndexError\<close>.

  The numbers are those of the Python run, floats as a rule, and the threshold is one of
  them. The pass applies four operations to them: the subtraction and \<^verbatim>\<open>abs\<close> of each
  component, the addition of \<^verbatim>\<open>sum\<close>, which starts from the integer 0 and adds the three
  terms from left to right, and the comparison \<^verbatim>\<open><\<close> with the threshold. The type of the
  numbers and these operations are parameters of the model, and nothing is assumed of
  them: the addition of floats rounds and is not associative, and a comparison with a
  \<^verbatim>\<open>nan\<close> is false. What is proved for every arithmetic holds for the operations of the
  run, whatever the numbers are. The operations are functions: a run in which one of them
  raises (components that are not numbers, an integer too large for a float) is not
  modelled.
\<close>

type_synonym 'a grain_map = "int \<rightharpoonup> 'a list"

record 'a arithmetic =
  num_sub :: "'a \<Rightarrow> 'a \<Rightarrow> 'a"
  num_abs :: "'a \<Rightarrow> 'a"
  num_add :: "'a \<Rightarrow> 'a \<Rightarrow> 'a"
  num_zero :: 'a
  num_less :: "'a \<Rightarrow> 'a \<Rightarrow> bool"

text \<open>\<^verbatim>\<open>sum([abs(orientation_1[k] - orientation_2[k]) for k in range(3)])\<close>\<close>

definition orientation_error :: "'a arithmetic \<Rightarrow> 'a list \<Rightarrow> 'a list \<Rightarrow> error + 'a" where
  "orientation_error ar orientation_1 orientation_2 =
     (if length orientation_1 < 3 \<or> length orientation_2 < 3 then Inl IndexError
      else Inr (num_add ar
                 (num_add ar
                   (num_add ar (num_zero ar)
                     (num_abs ar (num_sub ar (orientation_1 ! 0) (orientation_2 ! 0))))
                   (num_abs ar (num_sub ar (orientation_1 ! 1) (orientation_2 ! 1))))
                 (num_abs ar (num_sub ar (orientation_1 ! 2) (orientation_2 ! 2)))))"

text \<open>
  A Python \<^verbatim>\<open>dict\<close> keeps its keys in the order of their first insertion: the merge map is
  an association list in that order, with one entry for each key.
\<close>

type_synonym merge_map = "(int \<times> int list) list"

definition add_merge :: "merge_map \<Rightarrow> int \<Rightarrow> int \<Rightarrow> merge_map" where
  "add_merge merge_map id_i id_j =
     (if id_i \<in> fst ` set merge_map
      then map (\<lambda>entry. if fst entry = id_i then (fst entry, snd entry @ [id_j]) else entry) merge_map
      else merge_map @ [(id_i, [id_j])])"

definition identify_j ::
  "'a arithmetic \<Rightarrow> 'a grain_map \<Rightarrow> 'a \<Rightarrow> int \<Rightarrow> 'a list \<Rightarrow> int \<Rightarrow> merge_map
     \<Rightarrow> error + merge_map" where
  "identify_j ar grain_map threshold id_i orientation_1 id_j merge_map =
     (case grain_map id_j of
        None \<Rightarrow> Inl KeyError
      | Some orientation_2 \<Rightarrow>
          (case orientation_error ar orientation_1 orientation_2 of
             Inl e \<Rightarrow> Inl e
           | Inr err \<Rightarrow>
               Inr (if num_less ar err threshold then add_merge merge_map id_i id_j
                    else merge_map)))"

definition identify_i ::
  "'a arithmetic \<Rightarrow> 'a grain_map \<Rightarrow> 'a \<Rightarrow> int list \<Rightarrow> nat \<Rightarrow> merge_map \<Rightarrow> error + merge_map" where
  "identify_i ar grain_map threshold id_list i merge_map =
     (case grain_map (id_list ! i) of
        None \<Rightarrow> Inl KeyError
      | Some orientation_1 \<Rightarrow>
          (case for_each (identify_j ar grain_map threshold (id_list ! i) orientation_1)
                  (drop (i + 1) id_list) merge_map of
             Inl (e, _) \<Rightarrow> Inl e
           | Inr merge_map' \<Rightarrow> Inr merge_map'))"

text \<open>\<^verbatim>\<open>if new_pixel_grid[i][j] in merge_map[id]: new_pixel_grid[i][j] = id\<close>\<close>

definition merge_cell :: "int \<times> int list \<Rightarrow> nat \<times> nat \<Rightarrow> grid \<Rightarrow> error + grid" where
  "merge_cell entry p new_pixel_grid =
     (case px new_pixel_grid (fst p) (snd p) of
        Inl e \<Rightarrow> Inl e
      | Inr v \<Rightarrow>
          (if v \<in> set (snd entry) then set_px new_pixel_grid (fst p) (snd p) (fst entry)
           else Inr new_pixel_grid))"

text \<open>
  The two inner loops for one key run over \<^verbatim>\<open>range(len(pixel_grid))\<close> and
  \<^verbatim>\<open>range(len(pixel_grid[0]))\<close>, the sizes of the argument; the second is evaluated only
  inside the first, so the empty grid raises nothing here.
\<close>

definition merge_key :: "grid \<Rightarrow> int \<times> int list \<Rightarrow> grid \<Rightarrow> error + grid" where
  "merge_key pixel_grid entry new_pixel_grid =
     (case for_each (merge_cell entry)
             (cells (case pixel_grid of [] \<Rightarrow> 0 | row0 # _ \<Rightarrow> length row0) (length pixel_grid))
             new_pixel_grid of
        Inl (e, _) \<Rightarrow> Inl e
      | Inr g \<Rightarrow> Inr g)"

text \<open>Decimal digits, for the f-string of the summary.\<close>

fun show_nat :: "nat \<Rightarrow> string" where
  "show_nat n =
     (if n < 10 then [''0123456789'' ! n] else show_nat (n div 10) @ [''0123456789'' ! (n mod 10)])"

definition summary :: "nat \<Rightarrow> nat \<Rightarrow> string list" where
  "summary n m =
     [''========================='',
      ''Merged from '' @ show_nat n @ '' grains to '' @ show_nat m @ '' grains'',
      ''========================='']"

text \<open>
  The pass works on \<^verbatim>\<open>deepcopy(pixel_grid)\<close>, a list object of its own: the argument
  object is never written. A raise comes before the three \<^verbatim>\<open>print\<close> calls.
\<close>

definition merge_grains ::
  "pixel_maths \<Rightarrow> (int list \<Rightarrow> int list) \<Rightarrow> 'a arithmetic \<Rightarrow> grid \<Rightarrow> 'a grain_map \<Rightarrow> 'a
     \<Rightarrow> call" where
  "merge_grains pm set_iter ar pixel_grid grain_map threshold =
     (let id_list = fst (get_sorted_grain_id_list pm set_iter pixel_grid);
          new_pixel_grid = pixel_grid in
      (case for_each (identify_i ar grain_map threshold id_list) [0..<length id_list] [] of
         Inl (e, _) \<Rightarrow> \<lparr>arg_after = pixel_grid, stdout = [], outcome = Inl e\<rparr>
       | Inr merge_map \<Rightarrow>
           (case for_each (merge_key pixel_grid) merge_map new_pixel_grid of
              Inl (e, _) \<Rightarrow> \<lparr>arg_after = pixel_grid, stdout = [], outcome = Inl e\<rparr>
            | Inr new_pixel_grid' \<Rightarrow>
                (let new_id_list = fst (get_sorted_grain_id_list pm set_iter new_pixel_grid') in
                 \<lparr>arg_after = pixel_grid,
                  stdout = summary (length id_list) (length new_id_list),
                  outcome = Inr new_pixel_grid'\<rparr>))))"

section \<open>Notions of the statements\<close>

text \<open>
  The input contract of the passes: every row of the grid is as long as the first.
\<close>

definition rectangular :: "grid \<Rightarrow> bool" where
  "rectangular g = (\<forall>row \<in> set g. length row = length (hd g))"

text \<open>
  The number of void pixels among the neighbours \<open>ns\<close> on the grid \<open>g\<close>, and the value that
  the rules of \<^verbatim>\<open>clean_pixel_grid\<close> give the pixel \<open>p\<close> on the state \<open>s\<close> (a grid and the
  number of draws used): an unoriented pixel keeps its value; a void pixel with half or
  fewer void neighbours takes the value \<open>d\<close> of the neighbour drawn, unless that is
  unoriented; any other pixel with more than half void neighbours becomes void.
\<close>

definition void_count :: "pixel_maths \<Rightarrow> grid \<Rightarrow> (nat \<times> nat) list \<Rightarrow> nat" where
  "void_count pm g ns = length (filter (\<lambda>n. g ! snd n ! fst n = VOID_PIXEL_ID pm) ns)"

definition clean_value ::
  "pixel_maths \<Rightarrow> (nat \<Rightarrow> nat) \<Rightarrow> nat \<Rightarrow> nat \<Rightarrow> nat \<times> nat \<Rightarrow> grid \<times> nat \<Rightarrow> int" where
  "clean_value pm rng x_size y_size p s =
     (let g = fst s; v = g ! fst p ! snd p;
          ns = get_neighbours (snd p) (fst p) x_size y_size;
          nv = void_count pm g ns;
          d = g ! snd (ns ! (rng (snd s) mod length ns)) ! fst (ns ! (rng (snd s) mod length ns))
      in if v = UNORIENTED_PIXEL_ID pm then v
         else if v = VOID_PIXEL_ID pm \<and> 2 * nv \<le> length ns
              then (if d = UNORIENTED_PIXEL_ID pm then v else d)
         else if length ns < 2 * nv then VOID_PIXEL_ID pm
         else v)"

text \<open>
  For one turn of the loop of \<^verbatim>\<open>remove_small_grains\<close>: the coordinates \<open>(x, y)\<close> of the
  pixels of a grain within the scanned range, by rows; the values of the grain's halo, in
  the order of the halo; the grid with the grain's pixels set to \<open>m\<close>; and the first element
  of a list at which a key is largest.
\<close>

definition grain_coordinates :: "grid \<Rightarrow> nat \<Rightarrow> nat \<Rightarrow> int \<Rightarrow> (nat \<times> nat) list" where
  "grain_coordinates g x_size y_size grain_id =
     filter (\<lambda>n. g ! snd n ! fst n = grain_id) (map (\<lambda>c. (snd c, fst c)) (cells x_size y_size))"

definition halo_values :: "grid \<Rightarrow> nat \<Rightarrow> nat \<Rightarrow> int \<Rightarrow> int list" where
  "halo_values g x_size y_size grain_id =
     map (\<lambda>n. g ! snd n ! fst n)
       (get_all_neighbours (map fst (grain_coordinates g x_size y_size grain_id))
          (map snd (grain_coordinates g x_size y_size grain_id)) x_size y_size)"

definition relabel :: "grid \<Rightarrow> nat \<Rightarrow> nat \<Rightarrow> int \<Rightarrow> int \<Rightarrow> grid" where
  "relabel g x_size y_size grain_id m =
     map (\<lambda>(r, row). map (\<lambda>(c, v). if r < y_size \<and> c < x_size \<and> v = grain_id then m else v)
                          (enumerate 0 row))
       (enumerate 0 g)"

definition first_max :: "('a \<Rightarrow> nat) \<Rightarrow> 'a list \<Rightarrow> 'a option" where
  "first_max key xs = find (\<lambda>x. \<forall>y \<in> set xs. key y \<le> key x) xs"

text \<open>
  The description of \<^verbatim>\<open>remove_small_grains\<close> in the spec's words, to be compared with the
  loop of the source. The mode of a grain's halo on the grid \<open>g\<close> is the first element, in
  the iteration order of the set built from the halo values, whose count among the halo
  values is largest; there is none when the halo has no pixel. The turns take the IDs in
  order: an ID whose precomputed count is at least the threshold is skipped, any other ID
  has its pixels on the grid as it stands set to the mode of its halo. The pass takes the
  IDs of the grid other than the void one in ascending order, with the counts of the
  flattened argument.
\<close>

definition mode_of_halo :: "(int list \<Rightarrow> int list) \<Rightarrow> grid \<Rightarrow> nat \<Rightarrow> nat \<Rightarrow> int \<Rightarrow> int option" where
  "mode_of_halo set_iter g x_size y_size grain_id =
     first_max (count_list (halo_values g x_size y_size grain_id))
       (set_iter (halo_values g x_size y_size grain_id))"

fun remove_turns ::
  "(int list \<Rightarrow> int list) \<Rightarrow> (int \<Rightarrow> nat) \<Rightarrow> int \<Rightarrow> nat \<Rightarrow> nat \<Rightarrow> int list \<Rightarrow> grid \<Rightarrow> grid option" where
  "remove_turns set_iter counts threshold x_size y_size [] g = Some g"
| "remove_turns set_iter counts threshold x_size y_size (grain_id # rest) g =
     (if threshold \<le> int (counts grain_id)
      then remove_turns set_iter counts threshold x_size y_size rest g
      else (case mode_of_halo set_iter g x_size y_size grain_id of
              None \<Rightarrow> None
            | Some m \<Rightarrow>
                remove_turns set_iter counts threshold x_size y_size rest
                  (relabel g x_size y_size grain_id m)))"

definition remove_small_grains_spec ::
  "pixel_maths \<Rightarrow> (int list \<Rightarrow> int list) \<Rightarrow> grid \<Rightarrow> int \<Rightarrow> grid option" where
  "remove_small_grains_spec pm set_iter g threshold =
     remove_turns set_iter (count_list (concat g)) threshold (length (hd g)) (length g)
       (sorted_list_of_set (set (concat g) - {VOID_PIXEL_ID pm})) g"

text \<open>
  The description of \<^verbatim>\<open>merge_grains\<close> in the spec's words, to be compared with the loops of
  the source. The orientation distance of two IDs is the sum over the three components of
  the absolute differences, as the run computes it: with the operations of its arithmetic,
  the three terms added to zero in the order of the components. A pair is \<open>below\<close> the
  threshold when the comparison of the run says so of its distance. For every pair
  \<open>i < j\<close> of indices of the ascending ID list that is below the threshold, \<open>id_j\<close> is
  appended to the list of \<open>id_i\<close>: the
  merge map has, in the order of \<open>i\<close>, one entry for each \<open>id_i\<close> whose list is not empty.
  The merges are applied entry by entry, in that order: every pixel whose current value is
  in the entry's list is set to the entry's key. \<open>has_orientations\<close> is the contract of the
  grain map: an orientation of at least three components for every ID of the list.
\<close>

definition component_distance :: "'a arithmetic \<Rightarrow> 'a list \<Rightarrow> 'a list \<Rightarrow> nat \<Rightarrow> 'a" where
  "component_distance ar a b k = num_abs ar (num_sub ar (a ! k) (b ! k))"

definition distance :: "'a arithmetic \<Rightarrow> 'a grain_map \<Rightarrow> int \<Rightarrow> int \<Rightarrow> 'a" where
  "distance ar grain_map id_i id_j =
     (let a = the (grain_map id_i); b = the (grain_map id_j)
      in fold (\<lambda>k total. num_add ar total (component_distance ar a b k)) [0, 1, 2] (num_zero ar))"

definition below :: "'a arithmetic \<Rightarrow> 'a grain_map \<Rightarrow> 'a \<Rightarrow> int \<Rightarrow> int \<Rightarrow> bool" where
  "below ar grain_map threshold id_i id_j = num_less ar (distance ar grain_map id_i id_j) threshold"

definition merge_entry :: "'a arithmetic \<Rightarrow> 'a grain_map \<Rightarrow> 'a \<Rightarrow> int list \<Rightarrow> nat \<Rightarrow> int \<times> int list" where
  "merge_entry ar grain_map threshold id_list i =
     (id_list ! i, filter (below ar grain_map threshold (id_list ! i)) (drop (i + 1) id_list))"

definition merge_map_spec :: "'a arithmetic \<Rightarrow> 'a grain_map \<Rightarrow> 'a \<Rightarrow> int list \<Rightarrow> merge_map" where
  "merge_map_spec ar grain_map threshold id_list =
     filter (\<lambda>entry. snd entry \<noteq> [])
       (map (merge_entry ar grain_map threshold id_list) [0..<length id_list])"

definition apply_merges :: "merge_map \<Rightarrow> grid \<Rightarrow> grid" where
  "apply_merges merge_map g =
     fold (\<lambda>entry h. map (map (\<lambda>v. if v \<in> set (snd entry) then fst entry else v)) h) merge_map g"

definition has_orientations :: "'a grain_map \<Rightarrow> int list \<Rightarrow> bool" where
  "has_orientations grain_map id_list =
     (\<forall>i \<in> set id_list. case grain_map i of None \<Rightarrow> False | Some orientation \<Rightarrow> 3 \<le> length orientation)"

text \<open>
  What a threshold that is not positive needs of the arithmetic: a number is not negative
  when it is not below zero, and not positive when zero is not below it; zero, every
  absolute value and every sum of two numbers that are not negative are not negative, and
  no number that is not negative is below one that is not positive. The integers of Python
  obey these rules, and so do its floats, for which a comparison with a \<^verbatim>\<open>nan\<close> is false.
\<close>

definition not_negative :: "'a arithmetic \<Rightarrow> 'a \<Rightarrow> bool" where
  "not_negative ar a = (\<not> num_less ar a (num_zero ar))"

definition not_positive :: "'a arithmetic \<Rightarrow> 'a \<Rightarrow> bool" where
  "not_positive ar a = (\<not> num_less ar (num_zero ar) a)"

definition sign_rules :: "'a arithmetic \<Rightarrow> bool" where
  "sign_rules ar =
     (not_negative ar (num_zero ar)
      \<and> (\<forall>a. not_negative ar (num_abs ar a))
      \<and> (\<forall>a b. not_negative ar a \<and> not_negative ar b \<longrightarrow> not_negative ar (num_add ar a b))
      \<and> (\<forall>a t. not_negative ar a \<and> not_positive ar t \<longrightarrow> \<not> num_less ar a t))"

section \<open>Example inputs\<close>

text \<open>
  Sentinels, draw sequences, set orders, grids and grain maps for the concrete runs below.
  In \<open>example_pm\<close> the void ID is 0, as in the scenarios of the spec, and the ID of
  unoriented material is 9. \<open>zero_draws\<close> and \<open>one_draws\<close> are generators whose raw draws
  are all 0, or all 1. \<open>ascending_iter\<close> is the order in which CPython iterates a set of
  small non-negative integers that fit its hash table without collision; \<open>remdups\<close> is
  another admissible order. The orientations of the example grain maps are integers, on
  which the operations of Python are those of \<open>exact_arithmetic\<close>.
\<close>

definition example_pm :: pixel_maths where
  "example_pm = \<lparr>VOID_PIXEL_ID = 0, UNORIENTED_PIXEL_ID = 9\<rparr>"

definition zero_draws :: "nat \<Rightarrow> nat" where
  "zero_draws k = 0"

definition one_draws :: "nat \<Rightarrow> nat" where
  "one_draws k = 1"

definition ascending_iter :: "int list \<Rightarrow> int list" where
  "ascending_iter xs = sort (remdups xs)"

definition example_grain_map :: "int grain_map" where
  "example_grain_map = [1 \<mapsto> [0, 0, 1], 2 \<mapsto> [0, 0, 0], 3 \<mapsto> [1, 1, 1], 4 \<mapsto> [20, 20, 20]]"

definition ragged_grid :: grid where
  "ragged_grid = [[0, 5, 5], [5, 5, 5], [5, 5, 5], [5]]"

definition exact_arithmetic :: "int arithmetic" where
  "exact_arithmetic =
     \<lparr>num_sub = (\<lambda>a b. a - b), num_abs = abs, num_add = (\<lambda>a b. a + b), num_zero = 0,
      num_less = (\<lambda>a b. a < b)\<rparr>"

definition unoriented_grid :: grid where
  "unoriented_grid = [[9, 0, 1], [9, 5, 5]]"

definition unoriented_grain_map :: "int grain_map" where
  "unoriented_grain_map = [1 \<mapsto> [0, 0, 1], 5 \<mapsto> [0, 0, 0], 9 \<mapsto> [100, 100, 100]]"

definition oriented_grain_map :: "int grain_map" where
  "oriented_grain_map = [1 \<mapsto> [0, 0, 1], 5 \<mapsto> [0, 0, 0]]"

section \<open>Basic facts\<close>

lemma px_Inr: "px g r c = Inr v \<longleftrightarrow> r < length g \<and> c < length (g ! r) \<and> v = g ! r ! c"
  by (auto simp: px_def)

lemma px_Inl: "px g r c = Inl e \<longleftrightarrow> \<not> (r < length g \<and> c < length (g ! r)) \<and> e = IndexError"
  by (auto simp: px_def)

lemma set_px_Inr:
  "set_px g r c v = Inr g' \<longleftrightarrow> r < length g \<and> c < length (g ! r) \<and> g' = g[r := (g ! r)[c := v]]"
  by (auto simp: set_px_def)

lemma set_px_shape: "set_px g r c v = Inr g' \<Longrightarrow> map length g' = map length g"
  by (auto simp: set_px_Inr map_update list_update_same_conv)

lemma set_px_values: "set_px g r c v = Inr g' \<Longrightarrow> set (concat g') \<subseteq> insert v (set (concat g))"
proof -
  assume a: "set_px g r c v = Inr g'"
  then have r: "r < length g" and g': "g' = g[r := (g ! r)[c := v]]"
    by (auto simp: set_px_Inr)
  have "set g' \<subseteq> insert ((g ! r)[c := v]) (set g)"
    unfolding g' by (rule set_update_subset_insert)
  moreover have "set ((g ! r)[c := v]) \<subseteq> insert v (set (g ! r))"
    by (rule set_update_subset_insert)
  moreover have "g ! r \<in> set g" using r by simp
  ultimately show ?thesis by auto
qed

lemma for_each_invariant:
  assumes "for_each f ps s = Inr s'" and "I s"
    and "\<And>p t t'. p \<in> set ps \<Longrightarrow> I t \<Longrightarrow> f p t = Inr t' \<Longrightarrow> I t'"
  shows "I s'"
  using assms
proof (induction ps arbitrary: s)
  case Nil
  then show ?case by simp
next
  case (Cons p ps)
  from Cons.prems(1) obtain t where t: "f p s = Inr t" and rest: "for_each f ps t = Inr s'"
    by (auto split: sum.splits)
  have "I t" using Cons.prems(3)[of p s t] Cons.prems(2) t by simp
  show ?case
    by (rule Cons.IH[OF rest \<open>I t\<close>]) (use Cons.prems(3) in auto)
qed

lemma for_each_append:
  "for_each f (ps @ qs) s =
     (case for_each f ps s of Inl e \<Rightarrow> Inl e | Inr s' \<Rightarrow> for_each f qs s')"
  by (induction ps arbitrary: s) (auto split: sum.splits)

lemma id_list_props:
  assumes "set_iter_ok set_iter"
  shows "set (fst (get_sorted_grain_id_list pm set_iter g)) = set (concat g) - {VOID_PIXEL_ID pm}"
    and "distinct (fst (get_sorted_grain_id_list pm set_iter g))"
    and "sorted (fst (get_sorted_grain_id_list pm set_iter g))"
  using assms by (auto simp: get_sorted_grain_id_list_def set_iter_ok_def Let_def)

lemma id_list_length:
  assumes "set_iter_ok set_iter"
  shows "length (fst (get_sorted_grain_id_list pm set_iter g)) = card (set (concat g) - {VOID_PIXEL_ID pm})"
  using id_list_props[OF assms, of pm g] distinct_card by metis

lemma snd_id_list: "snd (get_sorted_grain_id_list pm set_iter g) = concat g"
  by (simp add: get_sorted_grain_id_list_def Let_def)


lemma add_merge_keys: "fst ` set (add_merge mm i j) \<subseteq> insert i (fst ` set mm)"
  by (auto simp: add_merge_def split: if_splits)

lemma identify_j_keys:
  "identify_j ar gm thr id_i o1 id_j mm = Inr mm' \<Longrightarrow> fst ` set mm' \<subseteq> insert id_i (fst ` set mm)"
  using add_merge_keys[of mm id_i id_j]
  by (auto simp: identify_j_def split: option.splits sum.splits if_splits)

lemma identify_i_keys:
  assumes "identify_i ar gm thr ids i mm = Inr mm'"
  shows "fst ` set mm' \<subseteq> insert (ids ! i) (fst ` set mm)"
proof -
  from assms obtain o1 where
    loop: "for_each (identify_j ar gm thr (ids ! i) o1) (drop (i + 1) ids) mm = Inr mm'"
    by (auto simp: identify_i_def split: option.splits sum.splits)
  show ?thesis
  proof (rule for_each_invariant[OF loop,
        where I = "\<lambda>m. fst ` set m \<subseteq> insert (ids ! i) (fst ` set mm)"])
    show "fst ` set mm \<subseteq> insert (ids ! i) (fst ` set mm)" by (rule subset_insertI)
  next
    fix p t t'
    assume t: "fst ` set t \<subseteq> insert (ids ! i) (fst ` set mm)"
      and step: "identify_j ar gm thr (ids ! i) o1 p t = Inr t'"
    have sub: "fst ` set t' \<subseteq> insert (ids ! i) (fst ` set t)"
      by (rule identify_j_keys[OF step])
    have "insert (ids ! i) (fst ` set t) \<subseteq> insert (ids ! i) (fst ` set mm)"
      using t by (simp only: insert_subset insertI1 simp_thms)
    with sub show "fst ` set t' \<subseteq> insert (ids ! i) (fst ` set mm)" by (rule subset_trans)
  qed
qed

lemma identify_keys:
  assumes "for_each (identify_i ar gm thr ids) [0..<length ids] [] = Inr mm"
  shows "fst ` set mm \<subseteq> set ids"
proof (rule for_each_invariant[OF assms, where I = "\<lambda>m. fst ` set m \<subseteq> set ids"])
  show "fst ` set [] \<subseteq> set ids" by simp
next
  fix p t t'
  assume p: "p \<in> set [0..<length ids]" and t: "fst ` set t \<subseteq> set ids"
    and step: "identify_i ar gm thr ids p t = Inr t'"
  have sub: "fst ` set t' \<subseteq> insert (ids ! p) (fst ` set t)"
    by (rule identify_i_keys[OF step])
  have "ids ! p \<in> set ids" using p by simp
  then have "insert (ids ! p) (fst ` set t) \<subseteq> set ids"
    using t by (simp only: insert_subset simp_thms)
  with sub show "fst ` set t' \<subseteq> set ids" by (rule subset_trans)
qed

lemma merge_cell_cases:
  assumes "merge_cell entry p g = Inr g'"
  shows "g' = g \<or> set_px g (fst p) (snd p) (fst entry) = Inr g'"
proof (cases "px g (fst p) (snd p)")
  case (Inl e)
  with assms show ?thesis by (simp add: merge_cell_def)
next
  case (Inr v)
  with assms show ?thesis by (simp add: merge_cell_def split: if_splits)
qed

lemma merge_cell_values:
  assumes "merge_cell entry p g = Inr g'"
  shows "set (concat g') \<subseteq> insert (fst entry) (set (concat g))"
  using merge_cell_cases[OF assms]
proof
  assume "g' = g"
  then show ?thesis by (simp only: subset_insertI)
next
  assume "set_px g (fst p) (snd p) (fst entry) = Inr g'"
  then show ?thesis by (rule set_px_values)
qed

lemma merge_cell_shape:
  assumes "merge_cell entry p g = Inr g'"
  shows "map length g' = map length g"
  using merge_cell_cases[OF assms]
proof
  assume "g' = g"
  then show ?thesis by simp
next
  assume "set_px g (fst p) (snd p) (fst entry) = Inr g'"
  then show ?thesis by (rule set_px_shape)
qed

lemma merge_key_values:
  assumes "merge_key pg entry g = Inr g'"
  shows "set (concat g') \<subseteq> insert (fst entry) (set (concat g))"
proof -
  from assms obtain cs where loop: "for_each (merge_cell entry) cs g = Inr g'"
    by (auto simp: merge_key_def split: sum.splits)
  show ?thesis
  proof (rule for_each_invariant[OF loop,
        where I = "\<lambda>h. set (concat h) \<subseteq> insert (fst entry) (set (concat g))"])
    show "set (concat g) \<subseteq> insert (fst entry) (set (concat g))" by (rule subset_insertI)
  next
    fix p t t'
    assume t: "set (concat t) \<subseteq> insert (fst entry) (set (concat g))"
      and step: "merge_cell entry p t = Inr t'"
    have sub: "set (concat t') \<subseteq> insert (fst entry) (set (concat t))"
      by (rule merge_cell_values[OF step])
    have "insert (fst entry) (set (concat t)) \<subseteq> insert (fst entry) (set (concat g))"
      using t by (simp only: insert_subset insertI1 simp_thms)
    with sub show "set (concat t') \<subseteq> insert (fst entry) (set (concat g))" by (rule subset_trans)
  qed
qed

lemma merge_keys_values:
  assumes "for_each (merge_key pg) mm g = Inr g'"
  shows "set (concat g') \<subseteq> fst ` set mm \<union> set (concat g)"
proof (rule for_each_invariant[OF assms,
      where I = "\<lambda>h. set (concat h) \<subseteq> fst ` set mm \<union> set (concat g)"])
  show "set (concat g) \<subseteq> fst ` set mm \<union> set (concat g)" by simp
next
  fix p t t'
  assume p: "p \<in> set mm" and t: "set (concat t) \<subseteq> fst ` set mm \<union> set (concat g)"
    and step: "merge_key pg p t = Inr t'"
  have sub: "set (concat t') \<subseteq> insert (fst p) (set (concat t))"
    by (rule merge_key_values[OF step])
  have "fst p \<in> fst ` set mm \<union> set (concat g)" using p by simp
  then have "insert (fst p) (set (concat t)) \<subseteq> fst ` set mm \<union> set (concat g)"
    using t by (simp only: insert_subset simp_thms)
  with sub show "set (concat t') \<subseteq> fst ` set mm \<union> set (concat g)" by (rule subset_trans)
qed

lemma merge_grains_cases:
  defines "ids \<equiv> \<lambda>pm set_iter g. fst (get_sorted_grain_id_list pm set_iter g)"
  shows "merge_grains pm set_iter ar g gm thr =
     (case for_each (identify_i ar gm thr (ids pm set_iter g)) [0..<length (ids pm set_iter g)] [] of
        Inl x \<Rightarrow> \<lparr>arg_after = g, stdout = [], outcome = Inl (fst x)\<rparr>
      | Inr mm \<Rightarrow>
          (case for_each (merge_key g) mm g of
             Inl x \<Rightarrow> \<lparr>arg_after = g, stdout = [], outcome = Inl (fst x)\<rparr>
           | Inr g' \<Rightarrow>
               \<lparr>arg_after = g,
                stdout = summary (length (ids pm set_iter g)) (length (ids pm set_iter g')),
                outcome = Inr g'\<rparr>))"
  unfolding merge_grains_def Let_def ids_def
  by (simp split: sum.split prod.split)

lemma merge_grains_Inr:
  assumes "outcome (merge_grains pm set_iter ar g gm thr) = Inr g'"
  obtains mm where
    "for_each (identify_i ar gm thr (fst (get_sorted_grain_id_list pm set_iter g)))
       [0..<length (fst (get_sorted_grain_id_list pm set_iter g))] [] = Inr mm"
    and "for_each (merge_key g) mm g = Inr g'"
  using assms unfolding merge_grains_cases
  by (simp split: sum.splits)

lemma merge_grains_values:
  assumes ok: "set_iter_ok set_iter"
    and res: "outcome (merge_grains pm set_iter ar g gm thr) = Inr g'"
  shows "set (concat g') \<subseteq> set (concat g)"
proof -
  from res obtain mm where
    ident: "for_each (identify_i ar gm thr (fst (get_sorted_grain_id_list pm set_iter g)))
       [0..<length (fst (get_sorted_grain_id_list pm set_iter g))] [] = Inr mm"
    and app: "for_each (merge_key g) mm g = Inr g'"
    by (rule merge_grains_Inr)
  have "fst ` set mm \<subseteq> set (concat g) - {VOID_PIXEL_ID pm}"
    using identify_keys[OF ident] by (simp only: id_list_props(1)[OF ok])
  then have "fst ` set mm \<subseteq> set (concat g)"
    by (rule subset_trans) (rule Diff_subset)
  then have "fst ` set mm \<union> set (concat g) \<subseteq> set (concat g)"
    by (simp only: Un_subset_iff subset_refl simp_thms)
  with merge_keys_values[OF app] show ?thesis by (rule subset_trans)
qed

lemma set_iter_ok_remdups: "set_iter_ok remdups"
  by (simp add: set_iter_ok_def)

lemma set_iter_ok_ascending: "set_iter_ok ascending_iter"
  by (simp add: set_iter_ok_def ascending_iter_def)

section \<open>The count and the summary of \<^verbatim>\<open>merge_grains\<close>\<close>

text \<open>
  Claim C9: for every input grid and grain map, the number of distinct grain IDs in the grid
  returned by \<^verbatim>\<open>merge_grains\<close> is at most the number of distinct grain IDs in the input
  grid. The number of distinct grain IDs is the length of the ID list, as the summary of the
  source counts it; "returned" is a call that does not raise.
\<close>

theorem merge_grains_count:
  assumes "set_iter_ok set_iter"
    and "outcome (merge_grains pm set_iter ar g gm thr) = Inr g'"
  shows "length (fst (get_sorted_grain_id_list pm set_iter g'))
           \<le> length (fst (get_sorted_grain_id_list pm set_iter g))"
proof -
  have "set (concat g') - {VOID_PIXEL_ID pm} \<subseteq> set (concat g) - {VOID_PIXEL_ID pm}"
    using merge_grains_values[OF assms] by (rule Diff_mono) (rule subset_refl)
  then have "card (set (concat g') - {VOID_PIXEL_ID pm}) \<le> card (set (concat g) - {VOID_PIXEL_ID pm})"
    by (intro card_mono finite_Diff finite_set)
  then show ?thesis by (simp only: id_list_length[OF assms(1)])
qed

theorem merge_grains_count_witness:
  "set_iter_ok remdups
   \<and> outcome (merge_grains example_pm remdups exact_arithmetic [[2, 3], [4, 1]] example_grain_map 10)
       = Inr [[1, 1], [4, 1]]
   \<and> length (fst (get_sorted_grain_id_list example_pm remdups [[1, 1], [4, 1]]))
       \<le> length (fst (get_sorted_grain_id_list example_pm remdups [[2, 3], [4, 1]]))"
proof -
  have run: "outcome (merge_grains example_pm remdups exact_arithmetic [[2, 3], [4, 1]] example_grain_map 10)
      = Inr [[1, 1], [4, 1]]"
    by code_simp
  show ?thesis
    using set_iter_ok_remdups run merge_grains_count[OF set_iter_ok_remdups run] by simp
qed

text \<open>
  Claim C5, as the code has it: \<^verbatim>\<open>merge_grains\<close> returns the merged grid and nothing else;
  the before/after summary of the distinct grain counts is printed, as three lines of
  standard output, when the call does not raise, and nothing is printed when it raises.
\<close>

theorem merge_grains_stdout:
  "stdout (merge_grains pm set_iter ar g gm thr) =
     (case outcome (merge_grains pm set_iter ar g gm thr) of
        Inl e \<Rightarrow> []
      | Inr g' \<Rightarrow> summary (length (fst (get_sorted_grain_id_list pm set_iter g)))
                   (length (fst (get_sorted_grain_id_list pm set_iter g'))))"
  unfolding merge_grains_cases
  by (simp split: sum.splits)

text \<open>
  Against claim C5 as stated (the summary is part of the return value, not printed): a run
  whose return value is the bare grid and whose summary is on standard output.
\<close>

theorem merge_grains_summary_printed:
  "merge_grains example_pm remdups exact_arithmetic [[2, 3], [4, 1]] example_grain_map 10 =
     \<lparr>arg_after = [[2, 3], [4, 1]],
      stdout = [''========================='',
                ''Merged from 4 grains to 2 grains'',
                ''=========================''],
      outcome = Inr [[1, 1], [4, 1]]\<rparr>"
  by code_simp

section \<open>Loops that skip or fail, and the sentinel of unoriented material\<close>

lemma for_each_skip:
  assumes "\<And>p. p \<in> set ps \<Longrightarrow> f p s = Inr s"
  shows "for_each f ps s = Inr s"
  using assms by (induction ps) simp_all

lemma for_each_Inr_step:
  assumes "for_each f ps s = Inr s'" and "p \<in> set ps"
  shows "\<exists>t t'. f p t = Inr t'"
  using assms
proof (induction ps arbitrary: s)
  case Nil
  then show ?case by simp
next
  case (Cons q qs)
  from Cons.prems(1) obtain t where t: "f q s = Inr t" and rest: "for_each f qs t = Inr s'"
    by (auto split: sum.splits)
  show ?case
  proof (cases "p = q")
    case True
    with t show ?thesis by blast
  next
    case False
    with Cons.prems(2) have "p \<in> set qs" by simp
    then show ?thesis by (rule Cons.IH[OF rest])
  qed
qed

lemma gsgil_pm_update:
  "get_sorted_grain_id_list (pm\<lparr>UNORIENTED_PIXEL_ID := u\<rparr>) set_iter g
     = get_sorted_grain_id_list pm set_iter g"
  by (simp add: get_sorted_grain_id_list_def Let_def)

lemma remove_small_grains_pm_update:
  "remove_small_grains (pm\<lparr>UNORIENTED_PIXEL_ID := u\<rparr>) set_iter g threshold
     = remove_small_grains pm set_iter g threshold"
  by (simp only: remove_small_grains_def gsgil_pm_update)

lemma merge_grains_pm_update:
  "merge_grains (pm\<lparr>UNORIENTED_PIXEL_ID := u\<rparr>) set_iter ar g gm thr
     = merge_grains pm set_iter ar g gm thr"
  by (simp only: merge_grains_def gsgil_pm_update)

lemma merge_grains_empty:
  assumes "set_iter_ok set_iter"
  shows "merge_grains pm set_iter ar [] gm thr = \<lparr>arg_after = [], stdout = summary 0 0, outcome = Inr []\<rparr>"
proof -
  have "set (fst (get_sorted_grain_id_list pm set_iter [])) = {}"
    by (simp add: id_list_props(1)[OF assms])
  then have "fst (get_sorted_grain_id_list pm set_iter []) = []" by simp
  then show ?thesis unfolding merge_grains_cases by simp
qed

lemma remove_small_grains_low_threshold:
  assumes "threshold \<le> 0" and "g \<noteq> []"
  shows "remove_small_grains pm set_iter g threshold = \<lparr>arg_after = g, stdout = [], outcome = Inr g\<rparr>"
proof -
  obtain row0 rest where g: "g = row0 # rest" using assms(2) by (cases g) auto
  have step: "remove_grain set_iter fl threshold xs ys i g = Inr g" for fl xs ys i
    using assms(1) by (simp add: remove_grain_def)
  have "for_each (remove_grain set_iter fl threshold xs ys) ids g = Inr g" for fl xs ys ids
    by (rule for_each_skip) (rule step)
  then show ?thesis
    by (simp add: remove_small_grains_def g Let_def del: for_each.simps)
qed

section \<open>Loops over the pixels\<close>

text \<open>
  Facts about the row-major scan, the reads of neighbours and the draw, a post-condition
  rule for loops whose steps each settle one element, and the loop of \<^verbatim>\<open>pad_edges\<close>.
\<close>

lemma cells_iff: "(r, c) \<in> set (cells x_size y_size) \<longleftrightarrow> r < y_size \<and> c < x_size"
  by (force simp: cells_def)

lemma cells_product: "cells x_size y_size = List.product [0..<y_size] [0..<x_size]"
  by (simp add: cells_def product_concat_map)

lemma distinct_cells: "distinct (cells x_size y_size)"
  by (simp add: cells_product distinct_product)

lemma get_neighbours_bounds:
  assumes "n \<in> set (get_neighbours x y x_size y_size)"
  shows "fst n < x_size" and "snd n < y_size" and "n \<noteq> (x, y)"
  using assms by (auto simp: get_neighbours_def)

lemma select_px_Inr:
  assumes "select_px g P ns = Inr sel"
  shows "sel = filter (\<lambda>n. P (g ! snd n ! fst n)) ns"
    and "\<forall>n \<in> set ns. snd n < length g \<and> fst n < length (g ! snd n)"
  using assms
proof (induction ns arbitrary: sel)
  case Nil
  { case 1 then show ?case by simp }
  { case 2 then show ?case by simp }
next
  case (Cons n ns)
  { case 1
    then obtain v rest where v: "px g (snd n) (fst n) = Inr v" and r: "select_px g P ns = Inr rest"
      and sel: "sel = (if P v then n # rest else rest)"
      by (auto split: sum.splits)
    from v have "v = g ! snd n ! fst n" by (simp add: px_Inr)
    with sel Cons.IH(1)[OF r] show ?case by simp }
  { case 2
    then obtain v rest where v: "px g (snd n) (fst n) = Inr v" and r: "select_px g P ns = Inr rest"
      by (auto split: sum.splits)
    from v have "snd n < length g \<and> fst n < length (g ! snd n)" by (simp add: px_Inr)
    with Cons.IH(2)[OF r] show ?case by simp }
qed

lemma select_px_total:
  assumes "\<forall>n \<in> set ns. snd n < length g \<and> fst n < length (g ! snd n)"
  shows "select_px g P ns = Inr (filter (\<lambda>n. P (g ! snd n ! fst n)) ns)"
  using assms by (induction ns) (simp_all add: px_def)

lemma px_list_Inr:
  assumes "px_list g ns = Inr vs"
  shows "vs = map (\<lambda>n. g ! snd n ! fst n) ns"
    and "\<forall>n \<in> set ns. snd n < length g \<and> fst n < length (g ! snd n)"
  using assms
proof (induction ns arbitrary: vs)
  case Nil
  { case 1 then show ?case by simp }
  { case 2 then show ?case by simp }
next
  case (Cons n ns)
  { case 1
    then obtain v rest where v: "px g (snd n) (fst n) = Inr v" and r: "px_list g ns = Inr rest"
      and vs: "vs = v # rest"
      by (auto split: sum.splits)
    from v have "v = g ! snd n ! fst n" by (simp add: px_Inr)
    with vs Cons.IH(1)[OF r] show ?case by simp }
  { case 2
    then obtain v rest where v: "px g (snd n) (fst n) = Inr v" and r: "px_list g ns = Inr rest"
      by (auto split: sum.splits)
    from v have "snd n < length g \<and> fst n < length (g ! snd n)" by (simp add: px_Inr)
    with Cons.IH(2)[OF r] show ?case by simp }
qed

lemma px_list_total:
  assumes "\<forall>n \<in> set ns. snd n < length g \<and> fst n < length (g ! snd n)"
  shows "px_list g ns = Inr (map (\<lambda>n. g ! snd n ! fst n) ns)"
  using assms by (induction ns) (simp_all add: px_def)

lemma randint_index:
  "randint rng k 0 (int n - 1) =
     (if n = 0 then Inl ValueError else Inr (int (rng k mod n), Suc k))"
  by (simp add: randint_def nat_diff_distrib')

lemma for_each_post:
  assumes loop: "for_each f ps s = Inr s'" and inv: "I s"
    and step: "\<And>p t t'. p \<in> set ps \<Longrightarrow> I t \<Longrightarrow> f p t = Inr t' \<Longrightarrow> I t' \<and> Q p t'"
    and keep: "\<And>p q t t'. q \<in> set ps \<Longrightarrow> I t \<Longrightarrow> Q p t \<Longrightarrow> f q t = Inr t' \<Longrightarrow> Q p t'"
  shows "I s' \<and> (\<forall>p \<in> set ps. Q p s')"
  using loop inv step keep
proof (induction ps arbitrary: s)
  case Nil
  from Nil.prems(1,2) show ?case by simp
next
  case (Cons q qs)
  from Cons.prems(1) obtain u where u: "f q s = Inr u" and rest: "for_each f qs u = Inr s'"
    by (auto split: sum.splits)
  have st: "I u \<and> Q q u"
    by (rule Cons.prems(3)[OF _ Cons.prems(2) u]) simp
  then have Iu: "I u" and Qu: "Q q u" by blast+
  have IH: "I s' \<and> (\<forall>p \<in> set qs. Q p s')"
  proof (rule Cons.IH[OF rest Iu])
    fix p t t' assume a: "p \<in> set qs" "I t" "f p t = Inr t'"
    show "I t' \<and> Q p t'"
      by (rule Cons.prems(3)[OF _ a(2) a(3)]) (simp add: a(1))
  next
    fix p q' t t' assume a: "q' \<in> set qs" "I t" "Q p t" "f q' t = Inr t'"
    show "Q p t'"
      by (rule Cons.prems(4)[OF _ a(2) a(3) a(4)]) (simp add: a(1))
  qed
  have "I s' \<and> Q q s'"
  proof (rule for_each_invariant[OF rest, where I = "\<lambda>w. I w \<and> Q q w"])
    show "I u \<and> Q q u" by (rule st)
  next
    fix p w w' assume a: "p \<in> set qs" "I w \<and> Q q w" "f p w = Inr w'"
    from a(2) have Iw: "I w" and Qw: "Q q w" by blast+
    have "I w'"
      using Cons.prems(3)[OF _ Iw a(3)] a(1) by simp
    moreover have "Q q w'"
      by (rule Cons.prems(4)[OF _ Iw Qw a(3)]) (simp add: a(1))
    ultimately show "I w' \<and> Q q w'" ..
  qed
  with IH show ?case by simp
qed

lemma nth_set_px:
  assumes "set_px g r c v = Inr g'"
  shows "g' ! r' ! c' = (if r' = r \<and> c' = c then v else g ! r' ! c')"
proof -
  from assms have r: "r < length g" and c: "c < length (g ! r)"
    and g': "g' = g[r := (g ! r)[c := v]]"
    by (simp_all add: set_px_Inr)
  show ?thesis
  proof (cases "r' = r")
    case True
    then show ?thesis using r c by (simp add: g' nth_list_update)
  next
    case False
    then show ?thesis by (simp add: g')
  qed
qed

lemma pad_cell_Inr:
  assumes "pad_cell pm rng g xs ys p s = Inr s'"
  shows "fst p < length g \<and> snd p < length (g ! fst p) \<and>
     ((g ! fst p ! snd p = VOID_PIXEL_ID pm \<and> fst s' = fst s) \<or>
      (\<exists>v. set_px (fst s) (fst p) (snd p) v = Inr (fst s') \<and> v \<noteq> VOID_PIXEL_ID pm \<and>
           (g ! fst p ! snd p \<noteq> VOID_PIXEL_ID pm \<longrightarrow> v = g ! fst p ! snd p)))"
proof -
  obtain v where v: "px g (fst p) (snd p) = Inr v"
    using assms by (cases "px g (fst p) (snd p)") (simp_all add: pad_cell_def Let_def)
  then have b: "fst p < length g \<and> snd p < length (g ! fst p)" and vv: "v = g ! fst p ! snd p"
    by (simp_all add: px_Inr)
  show ?thesis
  proof (cases "v = VOID_PIXEL_ID pm")
    case False
    obtain pd' where "set_px (fst s) (fst p) (snd p) v = Inr pd'" and "s' = (pd', snd s)"
      using assms v False
      by (cases "set_px (fst s) (fst p) (snd p) v") (simp_all add: pad_cell_def Let_def)
    with b vv False show ?thesis by auto
  next
    case True
    let ?ns = "get_neighbours (snd p) (fst p) xs ys"
    obtain live where live: "select_px g (\<lambda>u. u \<noteq> VOID_PIXEL_ID pm) ?ns = Inr live"
      using assms v True
      by (cases "select_px g (\<lambda>u. u \<noteq> VOID_PIXEL_ID pm) ?ns") (simp_all add: pad_cell_def Let_def)
    have live_eq: "live = filter (\<lambda>n. g ! snd n ! fst n \<noteq> VOID_PIXEL_ID pm) ?ns"
      by (rule select_px_Inr(1)[OF live])
    show ?thesis
    proof (cases "0 < length live")
      case False
      with assms v True live have "s' = s" by (simp add: pad_cell_def Let_def)
      with b vv True show ?thesis by simp
    next
      case pos: True
      let ?copy = "live ! (rng (snd s) mod length live)"
      have "?copy \<in> set live" using pos by simp
      then have cv: "g ! snd ?copy ! fst ?copy \<noteq> VOID_PIXEL_ID pm" by (simp add: live_eq)
      obtain c where c: "px g (snd ?copy) (fst ?copy) = Inr c"
        using assms v True live pos
        by (cases "px g (snd ?copy) (fst ?copy)") (simp_all add: pad_cell_def Let_def randint_index)
      then have cc: "c = g ! snd ?copy ! fst ?copy" by (simp add: px_Inr)
      obtain pd' where "set_px (fst s) (fst p) (snd p) c = Inr pd'" and "s' = (pd', Suc (snd s))"
        using assms v True live pos c
        by (cases "set_px (fst s) (fst p) (snd p) c") (simp_all add: pad_cell_def Let_def randint_index)
      with b vv True cv cc show ?thesis by auto
    qed
  qed
qed

lemma pad_loop:
  assumes loop: "for_each (pad_cell pm rng g xs ys) (cells xs ys) (get_void_pixel_grid pm xs ys, 0) = Inr s'"
  shows "map length (fst s') = replicate ys xs"
    and "\<And>r c. r < ys \<Longrightarrow> c < xs \<Longrightarrow>
          r < length g \<and> c < length (g ! r) \<and>
          (g ! r ! c \<noteq> VOID_PIXEL_ID pm \<longrightarrow> fst s' ! r ! c = g ! r ! c)"
proof -
  let ?I = "\<lambda>s::grid \<times> nat. map length (fst s) = replicate ys xs"
  let ?Q = "\<lambda>p (s::grid \<times> nat). fst p < length g \<and> snd p < length (g ! fst p) \<and>
     (g ! fst p ! snd p \<noteq> VOID_PIXEL_ID pm \<longrightarrow> fst s ! fst p ! snd p = g ! fst p ! snd p)"
  have post: "?I s' \<and> (\<forall>p \<in> set (cells xs ys). ?Q p s')"
  proof (rule for_each_post[OF loop, where I = ?I and Q = ?Q])
    show "?I (get_void_pixel_grid pm xs ys, 0)" by (simp add: get_void_pixel_grid_def)
  next
    fix p t t'
    assume I: "?I t" and st: "pad_cell pm rng g xs ys p t = Inr t'"
    from pad_cell_Inr[OF st] have b: "fst p < length g \<and> snd p < length (g ! fst p)"
      and d: "(g ! fst p ! snd p = VOID_PIXEL_ID pm \<and> fst t' = fst t) \<or>
      (\<exists>v. set_px (fst t) (fst p) (snd p) v = Inr (fst t') \<and> v \<noteq> VOID_PIXEL_ID pm \<and>
           (g ! fst p ! snd p \<noteq> VOID_PIXEL_ID pm \<longrightarrow> v = g ! fst p ! snd p))"
      by blast+
    from d show "?I t' \<and> ?Q p t'"
    proof
      assume "g ! fst p ! snd p = VOID_PIXEL_ID pm \<and> fst t' = fst t"
      with I b show ?thesis by simp
    next
      assume "\<exists>v. set_px (fst t) (fst p) (snd p) v = Inr (fst t') \<and> v \<noteq> VOID_PIXEL_ID pm \<and>
           (g ! fst p ! snd p \<noteq> VOID_PIXEL_ID pm \<longrightarrow> v = g ! fst p ! snd p)"
      then obtain v where w: "set_px (fst t) (fst p) (snd p) v = Inr (fst t')"
        and e: "g ! fst p ! snd p \<noteq> VOID_PIXEL_ID pm \<longrightarrow> v = g ! fst p ! snd p"
        by blast
      have "map length (fst t') = map length (fst t)" by (rule set_px_shape[OF w])
      moreover have "fst t' ! fst p ! snd p = v" by (simp add: nth_set_px[OF w])
      ultimately show ?thesis using I b e by simp
    qed
  next
    fix p q t t'
    assume I: "?I t" and Q: "?Q p t" and st: "pad_cell pm rng g xs ys q t = Inr t'"
    from pad_cell_Inr[OF st] have
      d: "(g ! fst q ! snd q = VOID_PIXEL_ID pm \<and> fst t' = fst t) \<or>
      (\<exists>v. set_px (fst t) (fst q) (snd q) v = Inr (fst t') \<and> v \<noteq> VOID_PIXEL_ID pm \<and>
           (g ! fst q ! snd q \<noteq> VOID_PIXEL_ID pm \<longrightarrow> v = g ! fst q ! snd q))"
      by blast
    from d show "?Q p t'"
    proof
      assume "g ! fst q ! snd q = VOID_PIXEL_ID pm \<and> fst t' = fst t"
      with Q show ?thesis by simp
    next
      assume "\<exists>v. set_px (fst t) (fst q) (snd q) v = Inr (fst t') \<and> v \<noteq> VOID_PIXEL_ID pm \<and>
           (g ! fst q ! snd q \<noteq> VOID_PIXEL_ID pm \<longrightarrow> v = g ! fst q ! snd q)"
      then obtain v where w: "set_px (fst t) (fst q) (snd q) v = Inr (fst t')"
        and e: "g ! fst q ! snd q \<noteq> VOID_PIXEL_ID pm \<longrightarrow> v = g ! fst q ! snd q"
        by blast
      show ?thesis
      proof (cases "fst p = fst q \<and> snd p = snd q")
        case True
        then have "fst t' ! fst p ! snd p = v" by (simp add: nth_set_px[OF w])
        with Q e True show ?thesis by simp
      next
        case False
        then have "fst t' ! fst p ! snd p = fst t ! fst p ! snd p"
          using nth_set_px[OF w, of "fst p" "snd p"] by auto
        with Q show ?thesis by simp
      qed
    qed
  qed
  from post show "map length (fst s') = replicate ys xs" by blast
  fix r c assume "r < ys" "c < xs"
  then have "(r, c) \<in> set (cells xs ys)" by (simp add: cells_iff)
  with post have "?Q (r, c) s'" by blast
  then show "r < length g \<and> c < length (g ! r) \<and>
          (g ! r ! c \<noteq> VOID_PIXEL_ID pm \<longrightarrow> fst s' ! r ! c = g ! r ! c)" by simp
qed

lemma pad_edges_Inr:
  assumes "outcome (pad_edges pm rng g) = Inr g'"
  obtains s' where "g \<noteq> []"
    and "for_each (pad_cell pm rng g (length (hd g)) (length g)) (cells (length (hd g)) (length g))
           (get_void_pixel_grid pm (length (hd g)) (length g), 0) = Inr s'"
    and "g' = fst s'"
proof (cases g)
  case Nil
  with assms show ?thesis by (simp add: pad_edges_def)
next
  case (Cons row0 rest)
  show ?thesis
  proof (cases "for_each (pad_cell pm rng g (length (hd g)) (length g)) (cells (length (hd g)) (length g))
           (get_void_pixel_grid pm (length (hd g)) (length g), 0)")
    case (Inl x)
    with assms Cons show ?thesis by (simp add: pad_edges_def Let_def split: prod.splits)
  next
    case (Inr s')
    with assms Cons have "g' = fst s'" by (simp add: pad_edges_def Let_def)
    with Inr Cons that show ?thesis by simp
  qed
qed

lemma filter_length_mono:
  assumes "length xs = length ys" and "\<And>i. i < length xs \<Longrightarrow> P (xs ! i) \<Longrightarrow> P (ys ! i)"
  shows "length (filter P xs) \<le> length (filter P ys)"
  using assms
proof (induction xs ys rule: list_induct2)
  case Nil
  then show ?case by simp
next
  case (Cons x xs y ys)
  have "length (filter P xs) \<le> length (filter P ys)"
  proof (rule Cons.IH)
    fix i assume "i < length xs" "P (xs ! i)"
    then show "P (ys ! i)" using Cons.prems[of "Suc i"] by simp
  qed
  moreover have "P x \<Longrightarrow> P y" using Cons.prems[of 0] by simp
  ultimately show ?case by auto
qed

lemma grid_count_mono:
  assumes "map length g = map length g'"
    and "\<And>r c. r < length g \<Longrightarrow> c < length (g ! r) \<Longrightarrow> P (g ! r ! c) \<Longrightarrow> P (g' ! r ! c)"
  shows "length (filter P (concat g)) \<le> length (filter P (concat g'))"
  using assms
proof (induction g arbitrary: g')
  case Nil
  then show ?case by simp
next
  case (Cons row g)
  from Cons.prems(1) obtain row' rest' where g': "g' = row' # rest'"
    and len: "length row = length row'" and shape: "map length g = map length rest'"
    by (cases g') auto
  have "length (filter P row) \<le> length (filter P row')"
  proof (rule filter_length_mono[OF len])
    fix i assume "i < length row" "P (row ! i)"
    then show "P (row' ! i)" using Cons.prems(2)[of 0 i] by (simp add: g')
  qed
  moreover have "length (filter P (concat g)) \<le> length (filter P (concat rest'))"
  proof (rule Cons.IH[OF shape])
    fix r c assume "r < length g" "c < length (g ! r)" "P (g ! r ! c)"
    then show "P (rest' ! r ! c)" using Cons.prems(2)[of "Suc r" c] by (simp add: g')
  qed
  ultimately show ?case by (simp add: g')
qed

lemma rectangular_shape:
  assumes "rectangular g"
  shows "map length g = replicate (length g) (length (hd g))"
  using assms by (simp add: rectangular_def map_replicate_const[symmetric] cong: map_cong)

lemma count_list_filter: "count_list xs x = length (filter (\<lambda>v. v = x) xs)"
  by (induction xs) simp_all

lemma pad_edges_pointwise:
  assumes "outcome (pad_edges pm rng g) = Inr g'"
  shows "map length g' = replicate (length g) (length (hd g))"
    and "\<And>r c. r < length g \<Longrightarrow> c < length (hd g) \<Longrightarrow>
          c < length (g ! r) \<and> (g ! r ! c \<noteq> VOID_PIXEL_ID pm \<longrightarrow> g' ! r ! c = g ! r ! c)"
proof -
  from assms obtain s' where
    loop: "for_each (pad_cell pm rng g (length (hd g)) (length g)) (cells (length (hd g)) (length g))
           (get_void_pixel_grid pm (length (hd g)) (length g), 0) = Inr s'"
    and g': "g' = fst s'"
    by (rule pad_edges_Inr)
  show "map length g' = replicate (length g) (length (hd g))"
    unfolding g' by (rule pad_loop(1)[OF loop])
  fix r c assume "r < length g" "c < length (hd g)"
  from pad_loop(2)[OF loop this]
  show "c < length (g ! r) \<and> (g ! r ! c \<noteq> VOID_PIXEL_ID pm \<longrightarrow> g' ! r ! c = g ! r ! c)"
    unfolding g' by simp
qed

section \<open>The claim about the counts of \<^verbatim>\<open>pad_edges\<close>\<close>

text \<open>
  Claim C7, as the code has it: on a rectangular grid, the grid returned by \<^verbatim>\<open>pad_edges\<close>
  has at least as many non-void pixels as the input, and at least as many pixels holding
  \<^verbatim>\<open>UNORIENTED_PIXEL_ID\<close>: every such pixel is copied, and a void pixel may be filled
  with the ID of unoriented material drawn from a neighbour.
\<close>

theorem pad_edges_counts:
  assumes "rectangular g" and "UNORIENTED_PIXEL_ID pm \<noteq> VOID_PIXEL_ID pm"
    and "outcome (pad_edges pm rng g) = Inr g'"
  shows "length (filter (\<lambda>v. v \<noteq> VOID_PIXEL_ID pm) (concat g))
           \<le> length (filter (\<lambda>v. v \<noteq> VOID_PIXEL_ID pm) (concat g'))
     \<and> count_list (concat g) (UNORIENTED_PIXEL_ID pm)
           \<le> count_list (concat g') (UNORIENTED_PIXEL_ID pm)"
proof -
  have shape: "map length g = map length g'"
    using rectangular_shape[OF assms(1)] pad_edges_pointwise(1)[OF assms(3)] by simp
  have cell: "g ! r ! c \<noteq> VOID_PIXEL_ID pm \<longrightarrow> g' ! r ! c = g ! r ! c"
    if "r < length g" "c < length (g ! r)" for r c
  proof -
    have "length (g ! r) = length (hd g)"
      using assms(1) that(1) by (simp add: rectangular_def)
    with that pad_edges_pointwise(2)[OF assms(3), of r c] show ?thesis by simp
  qed
  have "length (filter (\<lambda>v. v \<noteq> VOID_PIXEL_ID pm) (concat g))
           \<le> length (filter (\<lambda>v. v \<noteq> VOID_PIXEL_ID pm) (concat g'))"
  proof (rule grid_count_mono[OF shape])
    fix r c assume "r < length g" "c < length (g ! r)" "g ! r ! c \<noteq> VOID_PIXEL_ID pm"
    then show "g' ! r ! c \<noteq> VOID_PIXEL_ID pm" using cell[of r c] by simp
  qed
  moreover have "length (filter (\<lambda>v. v = UNORIENTED_PIXEL_ID pm) (concat g))
           \<le> length (filter (\<lambda>v. v = UNORIENTED_PIXEL_ID pm) (concat g'))"
  proof (rule grid_count_mono[OF shape])
    fix r c assume "r < length g" "c < length (g ! r)" "g ! r ! c = UNORIENTED_PIXEL_ID pm"
    then show "g' ! r ! c = UNORIENTED_PIXEL_ID pm" using cell[of r c] assms(2) by simp
  qed
  ultimately show ?thesis by (simp add: count_list_filter)
qed

theorem pad_edges_counts_witness:
  "rectangular [[0, 0], [7, 9]]
   \<and> UNORIENTED_PIXEL_ID example_pm \<noteq> VOID_PIXEL_ID example_pm
   \<and> outcome (pad_edges example_pm zero_draws [[0, 0], [7, 9]]) = Inr [[7, 7], [7, 9]]
   \<and> length (filter (\<lambda>v. v \<noteq> VOID_PIXEL_ID example_pm) (concat [[0, 0], [7, 9]]))
        \<le> length (filter (\<lambda>v. v \<noteq> VOID_PIXEL_ID example_pm) (concat [[7, 7], [7, 9]]))
   \<and> count_list (concat [[0, 0], [7, 9]]) (UNORIENTED_PIXEL_ID example_pm)
        \<le> count_list (concat [[7, 7], [7, 9]]) (UNORIENTED_PIXEL_ID example_pm)"
proof -
  have r: "rectangular [[0, 0], [7, 9]]" by (simp add: rectangular_def)
  have u: "UNORIENTED_PIXEL_ID example_pm \<noteq> VOID_PIXEL_ID example_pm"
    by (simp add: example_pm_def)
  have run: "outcome (pad_edges example_pm zero_draws [[0, 0], [7, 9]]) = Inr [[7, 7], [7, 9]]"
    by code_simp
  from r u run pad_edges_counts[OF r u run] show ?thesis by blast
qed

text \<open>
  Against claim C7 as stated (the count of unoriented pixels is unchanged): the void pixel
  has one live neighbour, which is unoriented, and is filled with its ID whatever the draw.
\<close>

theorem pad_edges_copies_unoriented:
  "outcome (pad_edges example_pm zero_draws [[0, 9]]) = Inr [[9, 9]]
   \<and> count_list (concat [[0, 9]]) (UNORIENTED_PIXEL_ID example_pm) = 1
   \<and> count_list (concat [[9, 9]]) (UNORIENTED_PIXEL_ID example_pm) = 2"
  by code_simp

section \<open>One pixel of the passes in place\<close>

text \<open>
  The steps of \<^verbatim>\<open>clean_pixel_grid\<close> and \<^verbatim>\<open>smoothen_edges\<close> write at most the pixel they
  visit; the step of \<^verbatim>\<open>clean_pixel_grid\<close> writes \<open>clean_value\<close>.
\<close>

lemma set_px_same: "r < length g \<Longrightarrow> c < length (g ! r) \<Longrightarrow> g[r := (g ! r)[c := g ! r ! c]] = g"
  by (simp add: list_update_same_conv)

lemma remove_live_Inr:
  assumes "r < length g" "c < length (g ! r)"
  shows "remove_live pm g r c nv n =
     Inr (g[r := (g ! r)[c := (if g ! r ! c \<noteq> VOID_PIXEL_ID pm \<and> n < 2 * nv then VOID_PIXEL_ID pm else g ! r ! c)]])"
proof (cases "g ! r ! c \<noteq> VOID_PIXEL_ID pm \<and> n < 2 * nv")
  case True
  with assms show ?thesis by (simp add: remove_live_def px_def set_px_def)
next
  case False
  have "g[r := (g ! r)[c := g ! r ! c]] = g" by (rule set_px_same[OF assms])
  with False assms show ?thesis by (auto simp: remove_live_def px_def)
qed

lemma clean_cell_Inr:
  assumes "clean_cell pm rng xs ys p s = Inr s'"
  shows "fst p < length (fst s) \<and> snd p < length (fst s ! fst p) \<and>
     fst s' = (fst s)[fst p := (fst s ! fst p)[snd p := clean_value pm rng xs ys p s]]"
proof -
  let ?g = "fst s" and ?r = "fst p" and ?c = "snd p"
  obtain v where v: "px ?g ?r ?c = Inr v"
    using assms by (cases "px ?g ?r ?c") (simp_all add: clean_cell_def Let_def)
  then have b: "?r < length ?g" "?c < length (?g ! ?r)" and vv: "v = ?g ! ?r ! ?c"
    by (simp_all add: px_Inr)
  show ?thesis
  proof (cases "v = UNORIENTED_PIXEL_ID pm")
    case True
    with assms v have "s' = s" by (simp add: clean_cell_def Let_def)
    moreover have "clean_value pm rng xs ys p s = ?g ! ?r ! ?c"
      using True vv by (simp add: clean_value_def Let_def)
    ultimately show ?thesis using b by (simp add: set_px_same)
  next
    case nu: False
    let ?ns = "get_neighbours ?c ?r xs ys"
    obtain vn where vn: "select_px ?g (\<lambda>u. u = VOID_PIXEL_ID pm) ?ns = Inr vn"
      using assms v nu
      by (cases "select_px ?g (\<lambda>u. u = VOID_PIXEL_ID pm) ?ns") (simp_all add: clean_cell_def Let_def)
    have nv: "length vn = void_count pm ?g ?ns"
      by (simp add: select_px_Inr(1)[OF vn] void_count_def)
    have inb: "\<forall>n \<in> set ?ns. snd n < length ?g \<and> fst n < length (?g ! snd n)"
      by (rule select_px_Inr(2)[OF vn])
    show ?thesis
    proof (cases "v = VOID_PIXEL_ID pm \<and> 2 * length vn \<le> length ?ns")
      case False
      have "clean_cell pm rng xs ys p s =
          (case remove_live pm ?g ?r ?c (length vn) (length ?ns) of
             Inl e \<Rightarrow> Inl e | Inr g' \<Rightarrow> Inr (g', snd s))"
      proof (cases "v = VOID_PIXEL_ID pm")
        case True
        with False have "\<not> 2 * length vn \<le> length ?ns" by simp
        with True v nu vn show ?thesis by (simp add: clean_cell_def Let_def)
      next
        case False
        with v nu vn show ?thesis by (simp add: clean_cell_def Let_def)
      qed
      then have "clean_cell pm rng xs ys p s = Inr (?g[?r := (?g ! ?r)[?c :=
          (if ?g ! ?r ! ?c \<noteq> VOID_PIXEL_ID pm \<and> length ?ns < 2 * length vn
           then VOID_PIXEL_ID pm else ?g ! ?r ! ?c)]], snd s)"
        by (simp only: remove_live_Inr[OF b] sum.case)
      with assms have "fst s' = ?g[?r := (?g ! ?r)[?c :=
          (if ?g ! ?r ! ?c \<noteq> VOID_PIXEL_ID pm \<and> length ?ns < 2 * length vn
           then VOID_PIXEL_ID pm else ?g ! ?r ! ?c)]]"
        by (metis sum.inject(2) fst_conv)
      moreover have "clean_value pm rng xs ys p s =
          (if ?g ! ?r ! ?c \<noteq> VOID_PIXEL_ID pm \<and> length ?ns < 2 * length vn
           then VOID_PIXEL_ID pm else ?g ! ?r ! ?c)"
        using False nu vv nv by (auto simp: clean_value_def Let_def)
      ultimately show ?thesis using b by (simp split del: if_split)
    next
      case fill: True
      show ?thesis
      proof (cases "length ?ns = 0")
        case True
        with assms v nu vn fill show ?thesis
          by (simp add: clean_cell_def Let_def randint_def)
      next
        case ne: False
        let ?copy = "?ns ! (rng (snd s) mod length ?ns)"
        have "?copy \<in> set ?ns" using ne by simp
        with inb have cb: "snd ?copy < length ?g \<and> fst ?copy < length (?g ! snd ?copy)" by blast
        then have c: "px ?g (snd ?copy) (fst ?copy) = Inr (?g ! snd ?copy ! fst ?copy)"
          by (simp add: px_def)
        let ?d = "?g ! snd ?copy ! fst ?copy"
        show ?thesis
        proof (cases "?d = UNORIENTED_PIXEL_ID pm")
          case True
          with assms v nu vn fill ne c have "s' = (?g, Suc (snd s))"
            by (simp add: clean_cell_def Let_def randint_index)
          moreover have "clean_value pm rng xs ys p s = ?g ! ?r ! ?c"
            using True fill nu vv nv by (simp add: clean_value_def Let_def)
          ultimately show ?thesis using b by (simp add: set_px_same)
        next
          case False
          let ?g1 = "?g[?r := (?g ! ?r)[?c := ?d]]"
          have w: "set_px ?g ?r ?c ?d = Inr ?g1" using b by (simp add: set_px_def)
          have b1: "?r < length ?g1" "?c < length (?g1 ! ?r)" using b by simp_all
          have "\<not> length ?ns < 2 * length vn" using fill by simp
          then have rl: "remove_live pm ?g1 ?r ?c (length vn) (length ?ns) = Inr ?g1"
            using b by (simp add: remove_live_Inr[OF b1] set_px_same)
          have "clean_cell pm rng xs ys p s = Inr (?g1, Suc (snd s))"
            using v nu vn fill ne c False w rl
            by (simp add: clean_cell_def Let_def randint_index)
          with assms have "fst s' = ?g1" by (metis sum.inject(2) fst_conv)
          moreover have "clean_value pm rng xs ys p s = ?d"
            using False fill nu vv nv by (simp add: clean_value_def Let_def)
          ultimately show ?thesis using b by simp
        qed
      qed
    qed
  qed
qed

lemma smoothen_cell_Inr:
  assumes "smoothen_cell pm rng xs ys p s = Inr s'"
  shows "fst p < length (fst s) \<and> snd p < length (fst s ! fst p) \<and>
     (\<exists>new. fst s' = (fst s)[fst p := (fst s ! fst p)[snd p := new]] \<and>
        (fst s ! fst p ! snd p = UNORIENTED_PIXEL_ID pm \<longrightarrow> new = UNORIENTED_PIXEL_ID pm))"
proof -
  let ?g = "fst s" and ?r = "fst p" and ?c = "snd p"
  obtain v where v: "px ?g ?r ?c = Inr v"
    using assms by (cases "px ?g ?r ?c") (simp_all add: smoothen_cell_def Let_def)
  then have b: "?r < length ?g" "?c < length (?g ! ?r)" and vv: "v = ?g ! ?r ! ?c"
    by (simp_all add: px_Inr)
  have same: "?g[?r := (?g ! ?r)[?c := ?g ! ?r ! ?c]] = ?g" by (rule set_px_same[OF b])
  show ?thesis
  proof (cases "v = UNORIENTED_PIXEL_ID pm")
    case True
    with assms v have "s' = s" by (simp add: smoothen_cell_def Let_def)
    with b same True vv show ?thesis by metis
  next
    case nu: False
    let ?ns = "get_neighbours ?c ?r xs ys"
    obtain fn where fn: "select_px ?g (\<lambda>u. u \<noteq> v) ?ns = Inr fn"
      using assms v nu
      by (cases "select_px ?g (\<lambda>u. u \<noteq> v) ?ns") (simp_all add: smoothen_cell_def Let_def)
    show ?thesis
    proof (cases "2 < length fn")
      case False
      with assms v nu fn have "s' = s" by (simp add: smoothen_cell_def Let_def)
      with b same nu vv show ?thesis by metis
    next
      case many: True
      then have ne: "length fn \<noteq> 0" by auto
      let ?foreign = "fn ! (rng (snd s) mod length fn)"
      obtain c where c: "px ?g (snd ?foreign) (fst ?foreign) = Inr c"
        using assms v nu fn many ne
        by (cases "px ?g (snd ?foreign) (fst ?foreign)")
           (simp_all add: smoothen_cell_def Let_def randint_index)
      show ?thesis
      proof (cases "c = UNORIENTED_PIXEL_ID pm")
        case True
        with assms v nu fn many ne c have "s' = (?g, Suc (snd s))"
          by (simp add: smoothen_cell_def Let_def randint_index)
        then have "fst s' = ?g" by simp
        with b same nu vv show ?thesis by metis
      next
        case False
        have w: "set_px ?g ?r ?c c = Inr (?g[?r := (?g ! ?r)[?c := c]])"
          using b by (simp add: set_px_def)
        have "smoothen_cell pm rng xs ys p s = Inr (?g[?r := (?g ! ?r)[?c := c]], Suc (snd s))"
          using v nu fn many ne c False w
          by (simp add: smoothen_cell_def Let_def randint_index)
        with assms have "fst s' = ?g[?r := (?g ! ?r)[?c := c]]"
          by (metis sum.inject(2) fst_conv)
        with b nu vv show ?thesis by metis
      qed
    qed
  qed
qed

lemma nth_cell_update:
  fixes g :: grid
  assumes "r < length g" "c < length (g ! r)"
  shows "g[r := (g ! r)[c := v]] ! r' ! c' = (if r' = r \<and> c' = c then v else g ! r' ! c')"
  using nth_set_px[of g r c v "g[r := (g ! r)[c := v]]" r' c'] assms
  by (simp add: set_px_def)

lemma cell_update_shape:
  "map length (g[r := (g ! r)[c := v]]) = map length g"
proof (cases "r < length g")
  case True
  then show ?thesis by (simp add: map_update list_update_same_conv)
next
  case False
  then have "length g \<le> r" by simp
  then show ?thesis by (simp only: list_update_beyond)
qed

lemma in_place_loop_keeps:
  fixes s :: "grid \<times> 'b"
  assumes loop: "for_each f ps s = Inr s'"
    and step: "\<And>p t t'. f p t = Inr t' \<Longrightarrow>
        fst p < length (fst t) \<and> snd p < length (fst t ! fst p) \<and>
        (\<exists>new. fst t' = (fst t)[fst p := (fst t ! fst p)[snd p := new]] \<and>
           (fst t ! fst p ! snd p = u \<longrightarrow> new = u))"
  shows "map length (fst s') = map length (fst s)
     \<and> (\<forall>r c. fst s ! r ! c = u \<longrightarrow> fst s' ! r ! c = u)"
proof (rule for_each_invariant[OF loop, where
      I = "\<lambda>t. map length (fst t) = map length (fst s)
                \<and> (\<forall>r c. fst s ! r ! c = u \<longrightarrow> fst t ! r ! c = u)"])
  show "map length (fst s) = map length (fst s) \<and> (\<forall>r c. fst s ! r ! c = u \<longrightarrow> fst s ! r ! c = u)"
    by simp
next
  fix p t t'
  assume I: "map length (fst t) = map length (fst s)
      \<and> (\<forall>r c. fst s ! r ! c = u \<longrightarrow> fst t ! r ! c = u)"
    and st: "f p t = Inr t'"
  from step[OF st] obtain new where b: "fst p < length (fst t)" "snd p < length (fst t ! fst p)"
    and t': "fst t' = (fst t)[fst p := (fst t ! fst p)[snd p := new]]"
    and keep: "fst t ! fst p ! snd p = u \<longrightarrow> new = u"
    by blast
  have "map length (fst t') = map length (fst s)"
    using I by (simp only: t' cell_update_shape)
  moreover have "fst t' ! r ! c = u" if "fst s ! r ! c = u" for r c
  proof -
    from I that have old: "fst t ! r ! c = u" by blast
    show ?thesis
    proof (cases "r = fst p \<and> c = snd p")
      case True
      with old keep have "new = u" by simp
      with True show ?thesis by (simp add: t' nth_cell_update[OF b])
    next
      case False
      then have "fst t' ! r ! c = fst t ! r ! c"
        using nth_cell_update[OF b, of new r c] by (auto simp: t')
      with old show ?thesis by simp
    qed
  qed
  ultimately show "map length (fst t') = map length (fst s)
      \<and> (\<forall>r c. fst s ! r ! c = u \<longrightarrow> fst t' ! r ! c = u)"
    by blast
qed

lemma in_place_Inr:
  assumes "outcome (in_place r) = Inr g'"
  obtains s' where "r = Inr s'" and "g' = fst s'"
  using assms by (cases r) (auto simp: in_place_def split: prod.splits)

lemma clean_pixel_grid_Inr:
  assumes "outcome (clean_pixel_grid pm rng g) = Inr g'"
  obtains s' where "g \<noteq> []"
    and "for_each (clean_cell pm rng (length (hd g)) (length g)) (cells (length (hd g)) (length g))
           (g, 0) = Inr s'"
    and "g' = fst s'"
proof (cases g)
  case Nil
  with assms show ?thesis by (simp add: clean_pixel_grid_def)
next
  case (Cons row0 rest)
  with assms have "outcome (in_place (for_each (clean_cell pm rng (length (hd g)) (length g))
      (cells (length (hd g)) (length g)) (g, 0))) = Inr g'"
    by (simp add: clean_pixel_grid_def Let_def)
  then obtain s' where "for_each (clean_cell pm rng (length (hd g)) (length g))
      (cells (length (hd g)) (length g)) (g, 0) = Inr s'" and "g' = fst s'"
    by (rule in_place_Inr)
  with Cons that show ?thesis by simp
qed

lemma smoothen_edges_Inr:
  assumes "outcome (smoothen_edges pm rng g) = Inr g'"
  obtains s' where "g \<noteq> []"
    and "for_each (smoothen_cell pm rng (length (hd g)) (length g)) (cells (length (hd g)) (length g))
           (g, 0) = Inr s'"
    and "g' = fst s'"
proof (cases g)
  case Nil
  with assms show ?thesis by (simp add: smoothen_edges_def)
next
  case (Cons row0 rest)
  with assms have "outcome (in_place (for_each (smoothen_cell pm rng (length (hd g)) (length g))
      (cells (length (hd g)) (length g)) (g, 0))) = Inr g'"
    by (simp add: smoothen_edges_def Let_def)
  then obtain s' where "for_each (smoothen_cell pm rng (length (hd g)) (length g))
      (cells (length (hd g)) (length g)) (g, 0) = Inr s'" and "g' = fst s'"
    by (rule in_place_Inr)
  with Cons that show ?thesis by simp
qed

lemma clean_value_unoriented:
  "fst s ! fst p ! snd p = UNORIENTED_PIXEL_ID pm \<Longrightarrow>
     clean_value pm rng xs ys p s = UNORIENTED_PIXEL_ID pm"
  by (simp add: clean_value_def Let_def)

lemma clean_pixel_grid_keeps:
  assumes "outcome (clean_pixel_grid pm rng g) = Inr g'"
  shows "map length g' = map length g"
    and "g ! r ! c = UNORIENTED_PIXEL_ID pm \<Longrightarrow> g' ! r ! c = UNORIENTED_PIXEL_ID pm"
proof -
  from assms obtain s' where
    loop: "for_each (clean_cell pm rng (length (hd g)) (length g)) (cells (length (hd g)) (length g))
           (g, 0) = Inr s'" and g': "g' = fst s'"
    by (rule clean_pixel_grid_Inr)
  have "map length (fst s') = map length (fst (g, 0::nat))
     \<and> (\<forall>r c. fst (g, 0::nat) ! r ! c = UNORIENTED_PIXEL_ID pm
            \<longrightarrow> fst s' ! r ! c = UNORIENTED_PIXEL_ID pm)"
  proof (rule in_place_loop_keeps[OF loop])
    fix p t t' assume "clean_cell pm rng (length (hd g)) (length g) p t = Inr t'"
    from clean_cell_Inr[OF this] clean_value_unoriented[of t p pm rng "length (hd g)" "length g"]
    show "fst p < length (fst t) \<and> snd p < length (fst t ! fst p) \<and>
        (\<exists>new. fst t' = (fst t)[fst p := (fst t ! fst p)[snd p := new]] \<and>
           (fst t ! fst p ! snd p = UNORIENTED_PIXEL_ID pm \<longrightarrow> new = UNORIENTED_PIXEL_ID pm))"
      by blast
  qed
  then show "map length g' = map length g"
    and "g ! r ! c = UNORIENTED_PIXEL_ID pm \<Longrightarrow> g' ! r ! c = UNORIENTED_PIXEL_ID pm"
    by (simp_all add: g')
qed

lemma smoothen_edges_keeps:
  assumes "outcome (smoothen_edges pm rng g) = Inr g'"
  shows "map length g' = map length g"
    and "g ! r ! c = UNORIENTED_PIXEL_ID pm \<Longrightarrow> g' ! r ! c = UNORIENTED_PIXEL_ID pm"
proof -
  from assms obtain s' where
    loop: "for_each (smoothen_cell pm rng (length (hd g)) (length g)) (cells (length (hd g)) (length g))
           (g, 0) = Inr s'" and g': "g' = fst s'"
    by (rule smoothen_edges_Inr)
  have "map length (fst s') = map length (fst (g, 0::nat))
     \<and> (\<forall>r c. fst (g, 0::nat) ! r ! c = UNORIENTED_PIXEL_ID pm
            \<longrightarrow> fst s' ! r ! c = UNORIENTED_PIXEL_ID pm)"
    by (rule in_place_loop_keeps[OF loop]) (rule smoothen_cell_Inr)
  then show "map length g' = map length g"
    and "g ! r ! c = UNORIENTED_PIXEL_ID pm \<Longrightarrow> g' ! r ! c = UNORIENTED_PIXEL_ID pm"
    by (simp_all add: g')
qed

lemma clean_pixel_grid_final_value:
  assumes res: "outcome (clean_pixel_grid pm rng g) = Inr g'"
    and split: "cells (length (hd g)) (length g) = before @ (row, col) # after"
    and visit: "for_each (clean_cell pm rng (length (hd g)) (length g)) before (g, 0) = Inr visit"
  shows "g' ! row ! col = clean_value pm rng (length (hd g)) (length g) (row, col) visit"
proof -
  let ?f = "clean_cell pm rng (length (hd g)) (length g)"
  let ?cv = "clean_value pm rng (length (hd g)) (length g) (row, col) visit"
  from res obtain s' where
    loop: "for_each ?f (cells (length (hd g)) (length g)) (g, 0) = Inr s'" and g': "g' = fst s'"
    by (rule clean_pixel_grid_Inr)
  from loop have "for_each ?f ((row, col) # after) visit = Inr s'"
    by (simp add: split for_each_append visit del: for_each.simps)
  then obtain s1 where s1: "?f (row, col) visit = Inr s1" and rest: "for_each ?f after s1 = Inr s'"
    by (auto split: sum.splits)
  from clean_cell_Inr[OF s1] have b: "row < length (fst visit)" "col < length (fst visit ! row)"
    and e: "fst s1 = (fst visit)[row := (fst visit ! row)[col := ?cv]]"
    by simp_all
  have v1: "fst s1 ! row ! col = ?cv"
    by (simp add: e nth_cell_update[OF b])
  have "distinct (before @ (row, col) # after)"
    using distinct_cells[of "length (hd g)" "length g"] by (simp only: split)
  then have notin: "(row, col) \<notin> set after" by simp
  have "fst s' ! row ! col = ?cv"
  proof (rule for_each_invariant[OF rest, where I = "\<lambda>t. fst t ! row ! col = ?cv"])
    show "fst s1 ! row ! col = ?cv" by (rule v1)
  next
    fix q t t'
    assume q: "q \<in> set after" and I: "fst t ! row ! col = ?cv" and st: "?f q t = Inr t'"
    from clean_cell_Inr[OF st] obtain new where
      bq: "fst q < length (fst t)" "snd q < length (fst t ! fst q)"
      and t': "fst t' = (fst t)[fst q := (fst t ! fst q)[snd q := new]]"
      by blast
    from q notin have "q \<noteq> (row, col)" by blast
    then have "\<not> (row = fst q \<and> col = snd q)" by auto
    then have "fst t' ! row ! col = fst t ! row ! col"
      using nth_cell_update[OF bq, of new row col] by (auto simp: t')
    with I show "fst t' ! row ! col = ?cv" by simp
  qed
  then show ?thesis by (simp add: g')
qed

section \<open>The claim about the rules of \<^verbatim>\<open>clean_pixel_grid\<close>\<close>

text \<open>
  Claim C6, as the code has it. The pass works in place, so the neighbours of a pixel are
  counted on the grid \<open>gv\<close> as it stands when the pixel is visited, after the pixels
  \<open>before\<close> it in the row-major order have been treated, with \<open>k\<close> draws used. For a
  pixel that does not hold \<^verbatim>\<open>UNORIENTED_PIXEL_ID\<close> then: with strictly more than half of
  its neighbours void it is void in the result; a void pixel with half or fewer void
  neighbours takes the value \<open>d\<close> of its single draw among all its neighbours, void
  ones included, and stays void when \<open>d\<close> is the ID of unoriented material. So it becomes
  non-void exactly when the draw lands on a neighbour that is neither void nor unoriented.
\<close>

theorem clean_pixel_grid_rules:
  assumes "outcome (clean_pixel_grid pm rng g) = Inr g'"
    and "cells (length (hd g)) (length g) = before @ (row, col) # after"
    and "for_each (clean_cell pm rng (length (hd g)) (length g)) before (g, 0) = Inr (gv, k)"
    and "gv ! row ! col \<noteq> UNORIENTED_PIXEL_ID pm"
    and "ns = get_neighbours col row (length (hd g)) (length g)"
    and "d = gv ! snd (ns ! (rng k mod length ns)) ! fst (ns ! (rng k mod length ns))"
  shows "(length ns < 2 * void_count pm gv ns \<longrightarrow> g' ! row ! col = VOID_PIXEL_ID pm)
     \<and> (gv ! row ! col = VOID_PIXEL_ID pm \<and> 2 * void_count pm gv ns \<le> length ns \<longrightarrow>
          g' ! row ! col = (if d = UNORIENTED_PIXEL_ID pm then VOID_PIXEL_ID pm else d))"
proof -
  have "g' ! row ! col = clean_value pm rng (length (hd g)) (length g) (row, col) (gv, k)"
    by (rule clean_pixel_grid_final_value[OF assms(1-3)])
  with assms(4-6) show ?thesis by (auto simp: clean_value_def Let_def)
qed

theorem clean_pixel_grid_rules_witness:
  "outcome (clean_pixel_grid example_pm one_draws [[0, 0], [5, 5]]) = Inr [[5, 5], [5, 5]]
   \<and> cells (length (hd [[0, 0], [5, 5::int]])) (length [[0, 0], [5, 5::int]])
       = [] @ (0, 0) # [(0, 1), (1, 0), (1, 1)]
   \<and> [[0, 0], [5, 5]] ! 0 ! 0 = VOID_PIXEL_ID example_pm
   \<and> 2 * void_count example_pm [[0, 0], [5, 5]] [(1, 0), (0, 1), (1, 1)] \<le> length [(1::nat, 0::nat), (0, 1), (1, 1)]
   \<and> [[5, 5], [5, 5]] ! 0 ! 0 = (5::int)
   \<and> outcome (clean_pixel_grid example_pm zero_draws [[5, 0], [0, 0]]) = Inr [[0, 0], [0, 0]]
   \<and> length [(1::nat, 0::nat), (0, 1), (1, 1)] < 2 * void_count example_pm [[5, 0], [0, 0]] [(1, 0), (0, 1), (1, 1)]
   \<and> [[0, 0], [0, 0]] ! 0 ! 0 = VOID_PIXEL_ID example_pm"
proof -
  let ?g = "[[0, 0], [5, 5::int]]" and ?h = "[[5, 0], [0, 0::int]]"
  have c: "cells (length (hd ?g)) (length ?g) = [] @ (0, 0) # [(0, 1), (1, 0), (1, 1)]"
    by code_simp
  have c': "cells (length (hd ?h)) (length ?h) = [] @ (0, 0) # [(0, 1), (1, 0), (1, 1)]"
    by code_simp
  have n: "[(1, 0), (0, 1), (1, 1)] = get_neighbours 0 0 (length (hd ?g)) (length ?g)"
    by code_simp
  have n': "[(1, 0), (0, 1), (1, 1)] = get_neighbours 0 0 (length (hd ?h)) (length ?h)"
    by code_simp
  have run1: "outcome (clean_pixel_grid example_pm one_draws ?g) = Inr [[5, 5], [5, 5]]"
    by code_simp
  have run2: "outcome (clean_pixel_grid example_pm zero_draws ?h) = Inr [[0, 0], [0, 0]]"
    by code_simp
  have u1: "?g ! 0 ! 0 \<noteq> UNORIENTED_PIXEL_ID example_pm" by (simp add: example_pm_def)
  have u2: "?h ! 0 ! 0 \<noteq> UNORIENTED_PIXEL_ID example_pm" by (simp add: example_pm_def)
  have v1: "?g ! 0 ! 0 = VOID_PIXEL_ID example_pm" by (simp add: example_pm_def)
  have k1: "2 * void_count example_pm ?g [(1, 0), (0, 1), (1, 1)] \<le> length [(1::nat, 0::nat), (0, 1), (1, 1)]"
    by (simp add: void_count_def example_pm_def)
  have k2: "length [(1::nat, 0::nat), (0, 1), (1, 1)] < 2 * void_count example_pm ?h [(1, 0), (0, 1), (1, 1)]"
    by (simp add: void_count_def example_pm_def)
  have f1: "for_each (clean_cell example_pm one_draws (length (hd ?g)) (length ?g)) [] (?g, 0) = Inr (?g, 0)"
    by simp
  have f2: "for_each (clean_cell example_pm zero_draws (length (hd ?h)) (length ?h)) [] (?h, 0) = Inr (?h, 0)"
    by simp
  note T1 = clean_pixel_grid_rules[OF run1 c f1 u1 n refl]
  note T2 = clean_pixel_grid_rules[OF run2 c' f2 u2 n' refl]
  from T1 v1 k1 have r1: "[[5, 5], [5, 5]] ! 0 ! 0 = (5::int)" by simp
  from T2 k2 have r2: "[[0, 0], [0, 0]] ! 0 ! 0 = VOID_PIXEL_ID example_pm" by blast
  from run1 c v1 k1 r1 run2 k2 r2 show ?thesis by blast
qed

text \<open>
  Against claim C6 as stated: the first pixel visited is void, one of its three neighbours
  is void, no pixel of the grid is unoriented, and the pixel is still void in the result,
  because its draw landed on the void neighbour.
\<close>

theorem clean_pixel_grid_void_draw:
  "[[0, 0], [5, 5]] ! 0 ! 0 = VOID_PIXEL_ID example_pm
   \<and> hd (cells 2 2) = (0, 0)
   \<and> length (get_neighbours 0 0 2 2) = 3
   \<and> void_count example_pm [[0, 0], [5, 5]] (get_neighbours 0 0 2 2) = 1
   \<and> UNORIENTED_PIXEL_ID example_pm \<notin> set (concat [[0, 0], [5, 5]])
   \<and> outcome (clean_pixel_grid example_pm zero_draws [[0, 0], [5, 5]]) = Inr [[0, 0], [0, 0]]
   \<and> [[0, 0], [0, 0]] ! 0 ! 0 = VOID_PIXEL_ID example_pm"
  by code_simp

section \<open>One turn of \<^verbatim>\<open>remove_small_grains\<close>\<close>

lemma values_iff:
  "v \<in> set (concat g) \<longleftrightarrow> (\<exists>r c. r < length g \<and> c < length (g ! r) \<and> g ! r ! c = v)"
proof
  assume "v \<in> set (concat g)"
  then obtain row where "row \<in> set g" and "v \<in> set row" by auto
  then obtain r c where "r < length g" "g ! r = row" "c < length row" "row ! c = v"
    by (metis in_set_conv_nth)
  then show "\<exists>r c. r < length g \<and> c < length (g ! r) \<and> g ! r ! c = v" by auto
next
  assume "\<exists>r c. r < length g \<and> c < length (g ! r) \<and> g ! r ! c = v"
  then obtain r c where "r < length g" "c < length (g ! r)" "g ! r ! c = v" by blast
  then have "g ! r \<in> set g" and "v \<in> set (g ! r)" by auto
  then show "v \<in> set (concat g)" by auto
qed

lemma write_loop:
  fixes g :: grid
  assumes "\<forall>n \<in> set coords. snd n < length g \<and> fst n < length (g ! snd n)"
  shows "\<exists>g'. for_each (\<lambda>c h. set_px h (snd c) (fst c) v) coords g = Inr g'
     \<and> map length g' = map length g
     \<and> (\<forall>r c. g' ! r ! c = (if (c, r) \<in> set coords then v else g ! r ! c))"
  using assms
proof (induction coords arbitrary: g)
  case Nil
  then show ?case by simp
next
  case (Cons n ns)
  let ?g1 = "g[snd n := (g ! snd n)[fst n := v]]"
  have b: "snd n < length g" "fst n < length (g ! snd n)" using Cons.prems by simp_all
  have w: "set_px g (snd n) (fst n) v = Inr ?g1" using b by (simp add: set_px_def)
  have shape: "map length ?g1 = map length g" by (rule cell_update_shape)
  have len: "length ?g1 = length g" by simp
  have rowlen: "length (?g1 ! y) = length (g ! y)" if "y < length g" for y
    using that by (cases "y = snd n") simp_all
  have "\<forall>m \<in> set ns. snd m < length ?g1 \<and> fst m < length (?g1 ! snd m)"
    using Cons.prems rowlen by simp
  from Cons.IH[OF this] obtain g' where
    l: "for_each (\<lambda>c h. set_px h (snd c) (fst c) v) ns ?g1 = Inr g'"
    and s: "map length g' = map length ?g1"
    and c: "\<forall>r c. g' ! r ! c = (if (c, r) \<in> set ns then v else ?g1 ! r ! c)"
    by blast
  have "for_each (\<lambda>c h. set_px h (snd c) (fst c) v) (n # ns) g = Inr g'"
    using w l by simp
  moreover have "map length g' = map length g" using s shape by simp
  moreover have "g' ! r ! c = (if (c, r) \<in> set (n # ns) then v else g ! r ! c)" for r c
  proof (cases "(c, r) \<in> set ns")
    case True
    with c show ?thesis by simp
  next
    case False
    with c have "g' ! r ! c = ?g1 ! r ! c" by simp
    also have "\<dots> = (if r = snd n \<and> c = fst n then v else g ! r ! c)"
      by (rule nth_cell_update[OF b])
    finally show ?thesis using False by (cases n) auto
  qed
  ultimately show ?case by blast
qed

lemma replace_coordinates_Inr:
  fixes g :: grid
  assumes "\<forall>n \<in> set coords. snd n < length g \<and> fst n < length (g ! snd n)"
  shows "\<exists>g'. replace_coordinates g coords v = Inr g'
     \<and> map length g' = map length g
     \<and> (\<forall>r c. g' ! r ! c = (if (c, r) \<in> set coords then v else g ! r ! c))"
proof -
  from write_loop[OF assms, of v] obtain g' where
    "for_each (\<lambda>c h. set_px h (snd c) (fst c) v) coords g = Inr g'"
    and "map length g' = map length g"
    and "\<forall>r c. g' ! r ! c = (if (c, r) \<in> set coords then v else g ! r ! c)"
    by blast
  then show ?thesis by (simp add: replace_coordinates_def)
qed

lemma fold_max_split:
  fixes key :: "'a \<Rightarrow> nat"
  defines "step \<equiv> \<lambda>y best. if key best < key y then y else best"
  shows "\<exists>pre post. x # xs = pre @ fold step xs x # post
     \<and> (\<forall>y \<in> set pre. key y < key (fold step xs x))
     \<and> (\<forall>y \<in> set post. key y \<le> key (fold step xs x))"
proof (induction xs arbitrary: x)
  case Nil
  have "[x] = [] @ x # [] \<and> (\<forall>y \<in> set []. key y < key x) \<and> (\<forall>y \<in> set []. key y \<le> key x)"
    by simp
  then show ?case by (simp only: fold_simps id_apply) blast
next
  case (Cons z zs)
  show ?case
  proof (cases "key x < key z")
    case True
    then have f: "fold step (z # zs) x = fold step zs z" by (simp add: step_def)
    define m where "m = fold step zs z"
    from Cons.IH[of z] obtain pre post where
      d: "z # zs = pre @ m # post"
      and p: "\<forall>y \<in> set pre. key y < key m"
      and q: "\<forall>y \<in> set post. key y \<le> key m"
      unfolding m_def by blast
    have "z \<in> set (pre @ m # post)" unfolding d[symmetric] by simp
    then have "key z \<le> key m" using p q by auto
    with True have "key x < key m" by simp
    with p have p': "\<forall>y \<in> set (x # pre). key y < key m" by simp
    have d': "x # z # zs = (x # pre) @ m # post" using d by simp
    from d' p' q show ?thesis unfolding f m_def[symmetric] by blast
  next
    case False
    then have f: "fold step (z # zs) x = fold step zs x" by (simp add: step_def)
    define m where "m = fold step zs x"
    from Cons.IH[of x] obtain pre post where
      d: "x # zs = pre @ m # post"
      and p: "\<forall>y \<in> set pre. key y < key m"
      and q: "\<forall>y \<in> set post. key y \<le> key m"
      unfolding m_def by blast
    show ?thesis
    proof (cases pre)
      case Nil
      from d have e: "x = m \<and> zs = post" unfolding Nil by simp
      have d': "x # z # zs = [] @ m # (z # post)" using e by simp
      have "key z \<le> key m" using False e by simp
      with q have q': "\<forall>y \<in> set (z # post). key y \<le> key m" by simp
      have p': "\<forall>y \<in> set []. key y < key m" by simp
      from d' p' q' show ?thesis unfolding f m_def[symmetric] by blast
    next
      case (Cons a pre')
      from d have e: "x = a \<and> zs = pre' @ m # post" unfolding Cons by simp
      have "key x < key m" using p Cons e by simp
      with False have "key z < key m" by simp
      with p Cons e have p': "\<forall>y \<in> set (x # z # pre'). key y < key m" by simp
      have d': "x # z # zs = (x # z # pre') @ m # post" using e by simp
      from d' p' q show ?thesis unfolding f m_def[symmetric] by blast
    qed
  qed
qed

lemma find_first:
  assumes "xs = pre @ m # post" and "\<forall>y \<in> set pre. \<not> P y" and "P m"
  shows "find P xs = Some m"
  using assms by (induction pre arbitrary: xs) auto

lemma max_by_key_first_max:
  "max_by_key key xs = (case first_max key xs of None \<Rightarrow> Inl ValueError | Some m \<Rightarrow> Inr m)"
proof (cases xs)
  case Nil
  then show ?thesis by (simp add: max_by_key_def first_max_def)
next
  case (Cons x rest)
  define m where "m = fold (\<lambda>y best. if key best < key y then y else best) rest x"
  from fold_max_split[of x rest key] obtain pre post where
    d: "x # rest = pre @ m # post"
    and p: "\<forall>y \<in> set pre. key y < key m"
    and q: "\<forall>y \<in> set post. key y \<le> key m"
    unfolding m_def by blast
  have xs: "xs = pre @ m # post" using d Cons by simp
  have all: "\<forall>y \<in> set xs. key y \<le> key m"
    unfolding xs using p q by auto
  have m_in: "m \<in> set xs" unfolding xs by simp
  have "\<forall>y \<in> set pre. \<not> (\<forall>z \<in> set xs. key z \<le> key y)"
  proof
    fix y assume "y \<in> set pre"
    with p have "key y < key m" by blast
    then have "\<not> key m \<le> key y" by simp
    with m_in show "\<not> (\<forall>z \<in> set xs. key z \<le> key y)" by blast
  qed
  from find_first[OF xs this all]
  have "find (\<lambda>x. \<forall>y \<in> set xs. key y \<le> key x) xs = Some m" .
  moreover have "max_by_key key xs = Inr m" by (simp add: max_by_key_def Cons m_def)
  ultimately show ?thesis by (simp add: first_max_def)
qed

lemma first_max_Some:
  assumes "first_max key xs = Some m"
  shows "m \<in> set xs" and "\<forall>y \<in> set xs. key y \<le> key m"
  using assms by (auto simp: first_max_def find_Some_iff)

lemma get_all_neighbours_bounds:
  assumes "n \<in> set (get_all_neighbours x_list y_list xs ys)"
  shows "fst n < xs" and "snd n < ys" and "n \<notin> set (zip x_list y_list)"
proof -
  from assms obtain c where "n \<in> set (get_neighbours (fst c) (snd c) xs ys)"
    and "n \<notin> set (zip x_list y_list)"
    by (auto simp: get_all_neighbours_def Let_def)
  then show "fst n < xs" and "snd n < ys" and "n \<notin> set (zip x_list y_list)"
    using get_neighbours_bounds(1,2)[of n "fst c" "snd c" xs ys] by simp_all
qed

lemma relabel_nth:
  assumes "r < length g" "c < length (g ! r)"
  shows "relabel g xs ys gid m ! r ! c = (if r < ys \<and> c < xs \<and> g ! r ! c = gid then m else g ! r ! c)"
  using assms by (simp add: relabel_def nth_enumerate_eq)

lemma relabel_shape: "map length (relabel g xs ys gid m) = map length g"
  by (rule nth_equalityI) (simp_all add: relabel_def nth_enumerate_eq)

lemma grid_eqI:
  fixes g g' :: grid
  assumes "map length g' = map length g"
    and "\<And>r c. r < length g \<Longrightarrow> c < length (g ! r) \<Longrightarrow> g' ! r ! c = g ! r ! c"
  shows "g' = g"
proof (rule nth_equalityI)
  from assms(1) show len: "length g' = length g" by (metis length_map)
  fix r assume r: "r < length g'"
  with len have r': "r < length g" by simp
  have rl: "length (g' ! r) = length (g ! r)"
    using assms(1) r r' by (metis nth_map)
  show "g' ! r = g ! r"
    by (rule nth_equalityI[OF rl]) (use assms(2) r' rl in simp)
qed

lemma remove_grain_skip:
  assumes "remove_grain set_iter fl thr xs ys gid g = Inr g'" and "thr \<le> int (count_list fl gid)"
  shows "g' = g"
  using assms by (simp add: remove_grain_def)

lemma remove_grain_small:
  assumes st: "remove_grain set_iter fl thr xs ys gid g = Inr g'"
    and small: "\<not> thr \<le> int (count_list fl gid)"
  shows "\<exists>m. first_max (count_list (halo_values g xs ys gid)) (set_iter (halo_values g xs ys gid)) = Some m
     \<and> map length g' = map length g
     \<and> (\<forall>r c. g' ! r ! c = (if r < ys \<and> c < xs \<and> g ! r ! c = gid then m else g ! r ! c))
     \<and> (\<forall>r c. r < ys \<and> c < xs \<longrightarrow> r < length g \<and> c < length (g ! r))
     \<and> (\<forall>n \<in> set (get_all_neighbours (map fst (grain_coordinates g xs ys gid))
                       (map snd (grain_coordinates g xs ys gid)) xs ys).
           snd n < length g \<and> fst n < length (g ! snd n))"
proof -
  let ?scan = "map (\<lambda>c. (snd c, fst c)) (cells xs ys)"
  obtain coords where sel: "select_px g (\<lambda>u. u = gid) ?scan = Inr coords"
    using st small by (cases "select_px g (\<lambda>u. u = gid) ?scan") (simp_all add: remove_grain_def)
  have coords: "coords = grain_coordinates g xs ys gid"
    by (simp add: select_px_Inr(1)[OF sel] grain_coordinates_def)
  have scan_b: "\<forall>n \<in> set ?scan. snd n < length g \<and> fst n < length (g ! snd n)"
    by (rule select_px_Inr(2)[OF sel])
  have scan: "r < length g \<and> c < length (g ! r)" if "r < ys" "c < xs" for r c
  proof -
    from that have "(r, c) \<in> set (cells xs ys)" by (simp add: cells_iff)
    then have "(c, r) \<in> set ?scan" by force
    with scan_b show ?thesis by fastforce
  qed
  have zip: "zip (map fst coords) (map snd coords) = coords" by (simp add: zip_map_fst_snd)
  let ?halo = "get_all_neighbours (map fst coords) (map snd coords) xs ys"
  obtain vals where pl: "px_list g ?halo = Inr vals"
    using st small sel
    by (cases "px_list g ?halo") (simp_all add: remove_grain_def Let_def)
  have vals: "vals = halo_values g xs ys gid"
    by (simp add: px_list_Inr(1)[OF pl] halo_values_def coords)
  have halo_b: "\<forall>n \<in> set ?halo. snd n < length g \<and> fst n < length (g ! snd n)"
    by (rule px_list_Inr(2)[OF pl])
  obtain m where mk: "max_by_key (count_list vals) (set_iter vals) = Inr m"
    using st small sel pl
    by (cases "max_by_key (count_list vals) (set_iter vals)")
       (simp_all add: remove_grain_def Let_def)
  then have fm: "first_max (count_list vals) (set_iter vals) = Some m"
    by (simp add: max_by_key_first_max split: option.splits)
  have rc: "replace_coordinates g coords m = Inr g'"
    using st small sel pl mk by (simp add: remove_grain_def Let_def zip)
  have cb: "\<forall>n \<in> set coords. snd n < length g \<and> fst n < length (g ! snd n)"
    using scan_b by (auto simp: coords grain_coordinates_def)
  from replace_coordinates_Inr[OF cb, of m] rc have
    shape: "map length g' = map length g"
    and nth: "\<forall>r c. g' ! r ! c = (if (c, r) \<in> set coords then m else g ! r ! c)"
    by simp_all
  have mem: "(c, r) \<in> set coords \<longleftrightarrow> r < ys \<and> c < xs \<and> g ! r ! c = gid" for r c
  proof -
    have "(c, r) \<in> set ?scan \<longleftrightarrow> r < ys \<and> c < xs"
      using cells_iff[of r c xs ys] by force
    then show ?thesis by (simp add: coords grain_coordinates_def)
  qed
  have "\<forall>r c. g' ! r ! c = (if r < ys \<and> c < xs \<and> g ! r ! c = gid then m else g ! r ! c)"
    using nth mem by simp
  with fm shape scan halo_b show ?thesis
    unfolding vals coords by blast
qed

lemma remove_small_grains_Inr:
  assumes "outcome (remove_small_grains pm set_iter g threshold) = Inr g'"
  obtains "g \<noteq> []"
    and "for_each (remove_grain set_iter (concat g) threshold (length (hd g)) (length g))
           (fst (get_sorted_grain_id_list pm set_iter g)) g = Inr g'"
proof (cases g)
  case Nil
  with assms show ?thesis by (simp add: remove_small_grains_def)
next
  case (Cons row0 rest)
  show ?thesis
  proof (cases "for_each (remove_grain set_iter (concat g) threshold (length (hd g)) (length g))
           (fst (get_sorted_grain_id_list pm set_iter g)) g")
    case (Inl x)
    with assms Cons show ?thesis
      by (simp add: remove_small_grains_def Let_def snd_id_list split: prod.splits)
  next
    case (Inr h)
    with assms Cons have "h = g'"
      by (simp add: remove_small_grains_def Let_def snd_id_list)
    with Inr Cons that show ?thesis by simp
  qed
qed

lemma remove_grain_step:
  assumes ok: "set_iter_ok set_iter"
    and shape: "map length t = replicate ys xs"
    and st: "remove_grain set_iter fl thr xs ys gid t = Inr t'"
  shows "map length t' = map length t"
    and "set (concat t') \<subseteq> set (concat t)"
    and "int (count_list fl gid) < thr \<Longrightarrow> gid \<notin> set (concat t')"
proof -
  have all: "map length t' = map length t \<and> set (concat t') \<subseteq> set (concat t)
      \<and> (int (count_list fl gid) < thr \<longrightarrow> gid \<notin> set (concat t'))"
  proof (cases "thr \<le> int (count_list fl gid)")
    case True
    from remove_grain_skip[OF st True] True show ?thesis by simp
  next
    case False
    let ?halo = "get_all_neighbours (map fst (grain_coordinates t xs ys gid))
                       (map snd (grain_coordinates t xs ys gid)) xs ys"
    let ?vals = "halo_values t xs ys gid"
    from remove_grain_small[OF st False] obtain m where
      fm: "first_max (count_list ?vals) (set_iter ?vals) = Some m"
      and sh: "map length t' = map length t"
      and nth: "\<forall>r c. t' ! r ! c = (if r < ys \<and> c < xs \<and> t ! r ! c = gid then m else t ! r ! c)"
      and hb: "\<forall>n \<in> set ?halo. snd n < length t \<and> fst n < length (t ! snd n)"
      by blast
    from first_max_Some(1)[OF fm] ok have "m \<in> set ?vals" by (simp add: set_iter_ok_def)
    then obtain n where n: "n \<in> set ?halo" and m: "m = t ! snd n ! fst n"
      by (auto simp: halo_values_def)
    from hb n have nb: "snd n < length t" "fst n < length (t ! snd n)" by blast+
    then have m_in: "m \<in> set (concat t)" unfolding values_iff m by blast
    have zip: "zip (map fst (grain_coordinates t xs ys gid)) (map snd (grain_coordinates t xs ys gid))
        = grain_coordinates t xs ys gid"
      by (simp add: zip_map_fst_snd)
    have nx: "fst n < xs" by (rule get_all_neighbours_bounds(1)[OF n])
    have ny: "snd n < ys" by (rule get_all_neighbours_bounds(2)[OF n])
    have nc: "n \<notin> set (grain_coordinates t xs ys gid)"
      using get_all_neighbours_bounds(3)[OF n] unfolding zip .
    have "(snd n, fst n) \<in> set (cells xs ys)" using nx ny by (simp add: cells_iff)
    then have "n \<in> set (map (\<lambda>c. (snd c, fst c)) (cells xs ys))" by force
    with nc have "t ! snd n ! fst n \<noteq> gid" by (simp add: grain_coordinates_def)
    then have m_ne: "m \<noteq> gid" by (simp add: m)
    have len: "length t' = length t" using sh by (metis length_map)
    have rowlen: "length (t' ! r) = length (t ! r)" if "r < length t" for r
      using sh that len by (metis nth_map)
    have rect: "r < ys \<and> c < xs" if "r < length t" "c < length (t ! r)" for r c
    proof -
      have "length t = ys" using shape by (metis length_map length_replicate)
      moreover have "length (t ! r) = xs"
        using shape that(1) by (metis nth_map nth_replicate length_map length_replicate)
      ultimately show ?thesis using that by simp
    qed
    have sub: "set (concat t') \<subseteq> set (concat t)"
    proof
      fix v assume "v \<in> set (concat t')"
      then obtain r c where b: "r < length t'" "c < length (t' ! r)" and v: "t' ! r ! c = v"
        unfolding values_iff by blast
      from b len rowlen have b': "r < length t" "c < length (t ! r)" by simp_all
      from nth v have "v = m \<or> v = t ! r ! c" by (metis)
      then show "v \<in> set (concat t)"
      proof
        assume "v = m"
        with m_in show ?thesis by (simp only:)
      next
        assume "v = t ! r ! c"
        then have "\<exists>r c. r < length t \<and> c < length (t ! r) \<and> t ! r ! c = v"
          using b' by blast
        then show ?thesis by (simp only: values_iff)
      qed
    qed
    have gone: "gid \<notin> set (concat t')"
    proof
      assume "gid \<in> set (concat t')"
      then obtain r c where b: "r < length t'" "c < length (t' ! r)" and v: "t' ! r ! c = gid"
        unfolding values_iff by blast
      from b len rowlen have b': "r < length t" "c < length (t ! r)" by simp_all
      from rect[OF b'] have in_scan: "r < ys \<and> c < xs" .
      show False
      proof (cases "t ! r ! c = gid")
        case True
        with nth in_scan have "t' ! r ! c = m" by simp
        with v m_ne show False by simp
      next
        case False
        with nth have "t' ! r ! c = t ! r ! c" by simp
        with v False show False by simp
      qed
    qed
    from sh sub gone show ?thesis by blast
  qed
  from all show "map length t' = map length t" and "set (concat t') \<subseteq> set (concat t)"
    and "int (count_list fl gid) < thr \<Longrightarrow> gid \<notin> set (concat t')"
    by blast+
qed

lemma remove_grain_keeps:
  assumes st: "remove_grain set_iter fl thr xs ys gid t = Inr t'"
    and big: "thr \<le> int (count_list fl u)"
    and cell: "t ! r ! c = u"
  shows "t' ! r ! c = u"
proof (cases "thr \<le> int (count_list fl gid)")
  case True
  from remove_grain_skip[OF st True] cell show ?thesis by simp
next
  case False
  with big have ne: "u \<noteq> gid" by auto
  from remove_grain_small[OF st False] obtain m where
    nth: "\<forall>r c. t' ! r ! c = (if r < ys \<and> c < xs \<and> t ! r ! c = gid then m else t ! r ! c)"
    by blast
  with cell ne show ?thesis by simp
qed

lemma remove_small_grains_keeps:
  assumes res: "outcome (remove_small_grains pm set_iter g threshold) = Inr g'"
    and big: "threshold \<le> int (count_list (concat g) u)"
  shows "map length g' = map length g" and "g ! r ! c = u \<Longrightarrow> g' ! r ! c = u"
proof -
  from res have loop: "for_each (remove_grain set_iter (concat g) threshold (length (hd g)) (length g))
           (fst (get_sorted_grain_id_list pm set_iter g)) g = Inr g'"
    by (rule remove_small_grains_Inr)
  have "map length g' = map length g \<and> (\<forall>r c. g ! r ! c = u \<longrightarrow> g' ! r ! c = u)"
  proof (rule for_each_invariant[OF loop, where
        I = "\<lambda>t. map length t = map length g \<and> (\<forall>r c. g ! r ! c = u \<longrightarrow> t ! r ! c = u)"])
    show "map length g = map length g \<and> (\<forall>r c. g ! r ! c = u \<longrightarrow> g ! r ! c = u)" by simp
  next
    fix p t t'
    assume I: "map length t = map length g \<and> (\<forall>r c. g ! r ! c = u \<longrightarrow> t ! r ! c = u)"
      and st: "remove_grain set_iter (concat g) threshold (length (hd g)) (length g) p t = Inr t'"
    have "map length t' = map length t"
    proof (cases "threshold \<le> int (count_list (concat g) p)")
      case True
      from remove_grain_skip[OF st True] show ?thesis by simp
    next
      case False
      from remove_grain_small[OF st False] show ?thesis by blast
    qed
    moreover have "t' ! r ! c = u" if "g ! r ! c = u" for r c
      using remove_grain_keeps[OF st big] I that by blast
    ultimately show "map length t' = map length g \<and> (\<forall>r c. g ! r ! c = u \<longrightarrow> t' ! r ! c = u)"
      using I by simp
  qed
  then show "map length g' = map length g" and "g ! r ! c = u \<Longrightarrow> g' ! r ! c = u" by blast+
qed

section \<open>The claims about the result of \<^verbatim>\<open>remove_small_grains\<close>\<close>

lemma remove_small_grains_survivors:
  assumes "set_iter_ok set_iter" and "rectangular g"
    and "outcome (remove_small_grains pm set_iter g threshold) = Inr g'"
    and "v \<in> set (concat g')" and "v \<noteq> VOID_PIXEL_ID pm"
  shows "threshold \<le> int (count_list (concat g) v)"
proof -
  let ?ids = "fst (get_sorted_grain_id_list pm set_iter g)"
  let ?f = "remove_grain set_iter (concat g) threshold (length (hd g)) (length g)"
  from assms(3) have loop: "for_each ?f ?ids g = Inr g'"
    by (rule remove_small_grains_Inr)
  have shape: "map length g = replicate (length g) (length (hd g))"
    by (rule rectangular_shape[OF assms(2)])
  have post: "(map length g' = map length g \<and> set (concat g') \<subseteq> set (concat g))
      \<and> (\<forall>p \<in> set ?ids. int (count_list (concat g) p) < threshold \<longrightarrow> p \<notin> set (concat g'))"
  proof (rule for_each_post[OF loop, where
        I = "\<lambda>t. map length t = map length g \<and> set (concat t) \<subseteq> set (concat g)"
        and Q = "\<lambda>p t. int (count_list (concat g) p) < threshold \<longrightarrow> p \<notin> set (concat t)"])
    show "map length g = map length g \<and> set (concat g) \<subseteq> set (concat g)" by simp
  next
    fix p t t'
    assume I: "map length t = map length g \<and> set (concat t) \<subseteq> set (concat g)"
      and st: "?f p t = Inr t'"
    from I shape have sh: "map length t = replicate (length g) (length (hd g))" by simp
    from remove_grain_step[OF assms(1) sh st] I
    show "(map length t' = map length g \<and> set (concat t') \<subseteq> set (concat g))
        \<and> (int (count_list (concat g) p) < threshold \<longrightarrow> p \<notin> set (concat t'))"
      by (metis subset_trans)
  next
    fix p q t t'
    assume I: "map length t = map length g \<and> set (concat t) \<subseteq> set (concat g)"
      and Q: "int (count_list (concat g) p) < threshold \<longrightarrow> p \<notin> set (concat t)"
      and st: "?f q t = Inr t'"
    from I shape have sh: "map length t = replicate (length g) (length (hd g))" by simp
    from remove_grain_step(2)[OF assms(1) sh st] Q
    show "int (count_list (concat g) p) < threshold \<longrightarrow> p \<notin> set (concat t')"
      by blast
  qed
  from post assms(4) have "v \<in> set (concat g)" by blast
  with assms(5) have "v \<in> set ?ids" by (simp add: id_list_props(1)[OF assms(1)])
  with post assms(4) have "\<not> int (count_list (concat g) v) < threshold" by blast
  then show ?thesis by simp
qed

text \<open>
  Claim C8: after \<^verbatim>\<open>remove_small_grains\<close>, no grain ID present in the output has a count,
  taken on the input grid before any reassignment, below the threshold, unless it was the
  absorption target of a smaller removed grain. The code gives more on a rectangular grid:
  the exception never applies. A grain absorbed into a small grain of larger ID is removed
  with it when that ID's turn comes, and a removed ID cannot come back, since every
  replacement is a value of the grid as it stands. So every non-void ID of the returned
  grid has an input count of at least the threshold.
\<close>

theorem remove_small_grains_threshold:
  assumes "set_iter_ok set_iter" and "rectangular g"
    and "outcome (remove_small_grains pm set_iter g threshold) = Inr g'"
    and "v \<in> set (concat g')" and "v \<noteq> VOID_PIXEL_ID pm"
  shows "threshold \<le> int (count_list (concat g) v)"
  using assms by (rule remove_small_grains_survivors)

theorem remove_small_grains_threshold_witness:
  "set_iter_ok ascending_iter \<and> rectangular [[5, 5, 1, 3, 3]]
   \<and> outcome (remove_small_grains example_pm ascending_iter [[5, 5, 1, 3, 3]] 2) = Inr [[5, 5, 3, 3, 3]]
   \<and> (3::int) \<in> set (concat [[5, 5, 3, 3, 3]]) \<and> 3 \<noteq> VOID_PIXEL_ID example_pm
   \<and> 2 \<le> int (count_list (concat [[5, 5, 1, 3, 3]]) (3::int))"
proof -
  have r: "rectangular [[5, 5, 1, 3, 3]]" by (simp add: rectangular_def)
  have run: "outcome (remove_small_grains example_pm ascending_iter [[5, 5, 1, 3, 3]] 2)
      = Inr [[5, 5, 3, 3, 3]]"
    by code_simp
  have m: "3 \<in> set (concat [[5, 5, 3, 3, 3::int]])" by simp
  have v: "3 \<noteq> VOID_PIXEL_ID example_pm" by (simp add: example_pm_def)
  from set_iter_ok_ascending r run m v
    remove_small_grains_threshold[OF set_iter_ok_ascending r run m v]
  show ?thesis by blast
qed

lemma remove_grain_relabel:
  assumes st: "remove_grain set_iter fl thr xs ys gid g = Inr g'"
    and small: "\<not> thr \<le> int (count_list fl gid)"
  shows "\<exists>m. first_max (count_list (halo_values g xs ys gid)) (set_iter (halo_values g xs ys gid)) = Some m
     \<and> g' = relabel g xs ys gid m"
proof -
  from remove_grain_small[OF st small] obtain m where
    fm: "first_max (count_list (halo_values g xs ys gid)) (set_iter (halo_values g xs ys gid)) = Some m"
    and sh: "map length g' = map length g"
    and nth: "\<forall>r c. g' ! r ! c = (if r < ys \<and> c < xs \<and> g ! r ! c = gid then m else g ! r ! c)"
    by blast
  have "g' = relabel g xs ys gid m"
  proof (rule grid_eqI)
    show "map length g' = map length (relabel g xs ys gid m)"
      using sh by (simp only: relabel_shape)
  next
    fix r c
    assume "r < length (relabel g xs ys gid m)" "c < length (relabel g xs ys gid m ! r)"
    moreover have "length (relabel g xs ys gid m) = length g"
      using relabel_shape[of g xs ys gid m] by (metis length_map)
    moreover have "r < length g \<Longrightarrow> length (relabel g xs ys gid m ! r) = length (g ! r)"
      using relabel_shape[of g xs ys gid m] by (metis nth_map length_map)
    ultimately have b: "r < length g" "c < length (g ! r)" by simp_all
    show "g' ! r ! c = relabel g xs ys gid m ! r ! c"
      using nth by (simp only: relabel_nth[OF b])
  qed
  with fm show ?thesis by blast
qed

lemma remove_grain_total:
  assumes shape: "map length g = replicate ys xs"
  shows "remove_grain set_iter fl thr xs ys gid g =
     (if thr \<le> int (count_list fl gid) then Inr g
      else (case mode_of_halo set_iter g xs ys gid of
              None \<Rightarrow> Inl ValueError
            | Some m \<Rightarrow> Inr (relabel g xs ys gid m)))"
proof (cases "thr \<le> int (count_list fl gid)")
  case True
  then show ?thesis by (simp add: remove_grain_def)
next
  case small: False
  from shape have len: "length g = ys" by (metis length_map length_replicate)
  have row: "length (g ! r) = xs" if "r < ys" for r
  proof -
    from that len have "map length g ! r = length (g ! r)" by simp
    with shape that show ?thesis by simp
  qed
  let ?scan = "map (\<lambda>c. (snd c, fst c)) (cells xs ys)"
  have scan_b: "\<forall>n \<in> set ?scan. snd n < length g \<and> fst n < length (g ! snd n)"
  proof
    fix n assume "n \<in> set ?scan"
    then have "(snd n, fst n) \<in> set (cells xs ys)" by auto
    then have "snd n < ys \<and> fst n < xs" by (simp only: cells_iff)
    with len row show "snd n < length g \<and> fst n < length (g ! snd n)" by simp
  qed
  let ?coords = "grain_coordinates g xs ys gid"
  have sel: "select_px g (\<lambda>u. u = gid) ?scan = Inr ?coords"
    unfolding grain_coordinates_def by (rule select_px_total[OF scan_b])
  let ?halo = "get_all_neighbours (map fst ?coords) (map snd ?coords) xs ys"
  have halo_b: "\<forall>n \<in> set ?halo. snd n < length g \<and> fst n < length (g ! snd n)"
  proof
    fix n assume "n \<in> set ?halo"
    from get_all_neighbours_bounds(1,2)[OF this] len row
    show "snd n < length g \<and> fst n < length (g ! snd n)" by simp
  qed
  let ?vals = "halo_values g xs ys gid"
  have pl: "px_list g ?halo = Inr ?vals"
    unfolding halo_values_def by (rule px_list_total[OF halo_b])
  have zip: "zip (map fst ?coords) (map snd ?coords) = ?coords" by (simp add: zip_map_fst_snd)
  have unfold: "remove_grain set_iter fl thr xs ys gid g =
      (case first_max (count_list ?vals) (set_iter ?vals) of
         None \<Rightarrow> Inl ValueError
       | Some m \<Rightarrow> replace_coordinates g ?coords m)"
    using small by (simp add: remove_grain_def sel pl Let_def zip max_by_key_first_max
        split: option.splits)
  show ?thesis
  proof (cases "first_max (count_list ?vals) (set_iter ?vals)")
    case None
    with unfold small show ?thesis by (simp add: mode_of_halo_def)
  next
    case (Some m)
    have cb: "\<forall>n \<in> set ?coords. snd n < length g \<and> fst n < length (g ! snd n)"
    proof
      fix n assume "n \<in> set ?coords"
      then have "n \<in> set ?scan" by (simp add: grain_coordinates_def)
      with scan_b show "snd n < length g \<and> fst n < length (g ! snd n)" by blast
    qed
    from replace_coordinates_Inr[OF cb, of m] obtain g' where
      "replace_coordinates g ?coords m = Inr g'" by blast
    with unfold Some have st: "remove_grain set_iter fl thr xs ys gid g = Inr g'" by simp
    from remove_grain_relabel[OF st small] Some have "g' = relabel g xs ys gid m" by simp
    with st small Some show ?thesis by (simp add: mode_of_halo_def)
  qed
qed

lemma remove_turns_loop:
  assumes shape: "map length g = replicate ys xs"
  shows "(case remove_turns set_iter (count_list fl) thr xs ys ids g of
            None \<Rightarrow> (\<exists>h. for_each (remove_grain set_iter fl thr xs ys) ids g = Inl (ValueError, h))
          | Some g' \<Rightarrow> for_each (remove_grain set_iter fl thr xs ys) ids g = Inr g')"
  using shape
proof (induction ids arbitrary: g)
  case Nil
  then show ?case by simp
next
  case (Cons gid ids)
  note step = remove_grain_total[OF Cons.prems, of set_iter fl thr gid]
  show ?case
  proof (cases "thr \<le> int (count_list fl gid)")
    case True
    with step have "remove_grain set_iter fl thr xs ys gid g = Inr g" by simp
    with True Cons.IH[OF Cons.prems] show ?thesis by (simp split: option.splits)
  next
    case False
    show ?thesis
    proof (cases "mode_of_halo set_iter g xs ys gid")
      case None
      with step False have "remove_grain set_iter fl thr xs ys gid g = Inl ValueError" by simp
      with False None show ?thesis by simp
    next
      case (Some m)
      with step False have st: "remove_grain set_iter fl thr xs ys gid g = Inr (relabel g xs ys gid m)"
        by simp
      have "map length (relabel g xs ys gid m) = replicate ys xs"
        using Cons.prems by (simp only: relabel_shape)
      from Cons.IH[OF this] st False Some show ?thesis by (simp split: option.splits)
    qed
  qed
qed

lemma id_list_sorted_list_of_set:
  assumes "set_iter_ok set_iter"
  shows "fst (get_sorted_grain_id_list pm set_iter g)
     = sorted_list_of_set (set (concat g) - {VOID_PIXEL_ID pm})"
  using id_list_props[OF assms, of pm g]
  by (metis sorted_list_of_set.idem_if_sorted_distinct)

lemma remove_small_grains_total:
  assumes ok: "set_iter_ok set_iter" and rect: "rectangular g" and ne: "g \<noteq> []"
  shows "(case remove_small_grains_spec pm set_iter g threshold of
            None \<Rightarrow> outcome (remove_small_grains pm set_iter g threshold) = Inl ValueError
          | Some g' \<Rightarrow> remove_small_grains pm set_iter g threshold
                         = \<lparr>arg_after = g', stdout = [], outcome = Inr g'\<rparr>)"
proof -
  from ne obtain row0 rest where g: "g = row0 # rest" by (cases g) auto
  let ?ids = "fst (get_sorted_grain_id_list pm set_iter g)"
  let ?f = "remove_grain set_iter (concat g) threshold (length (hd g)) (length g)"
  have call: "remove_small_grains pm set_iter g threshold =
      (case for_each ?f ?ids g of
         Inl (e, h) \<Rightarrow> \<lparr>arg_after = h, stdout = [], outcome = Inl e\<rparr>
       | Inr h \<Rightarrow> \<lparr>arg_after = h, stdout = [], outcome = Inr h\<rparr>)"
    unfolding remove_small_grains_def Let_def snd_id_list by (simp add: g)
  have spec: "remove_small_grains_spec pm set_iter g threshold
      = remove_turns set_iter (count_list (concat g)) threshold (length (hd g)) (length g) ?ids g"
    by (simp only: remove_small_grains_spec_def id_list_sorted_list_of_set[OF ok])
  note loop = remove_turns_loop[OF rectangular_shape[OF rect], of set_iter "concat g" threshold ?ids]
  show ?thesis
  proof (cases "remove_turns set_iter (count_list (concat g)) threshold (length (hd g)) (length g) ?ids g")
    case None
    with loop obtain h where "for_each ?f ?ids g = Inl (ValueError, h)" by auto
    with None show ?thesis unfolding spec call by simp
  next
    case (Some g')
    with loop have "for_each ?f ?ids g = Inr g'" by simp
    with Some show ?thesis unfolding spec call by simp
  qed
qed

lemma mode_of_halo_Some:
  assumes ok: "set_iter_ok set_iter" and m: "mode_of_halo set_iter h xs ys gid = Some m"
  shows "m \<in> set (halo_values h xs ys gid)"
    and "count_list (halo_values h xs ys gid) v \<le> count_list (halo_values h xs ys gid) m"
proof -
  let ?vals = "halo_values h xs ys gid"
  from ok have eq: "set (set_iter ?vals) = set ?vals" by (simp add: set_iter_ok_def)
  from m have fm: "first_max (count_list ?vals) (set_iter ?vals) = Some m"
    by (simp add: mode_of_halo_def)
  from first_max_Some[OF fm] have mem: "m \<in> set ?vals"
    and mx: "\<forall>y \<in> set ?vals. count_list ?vals y \<le> count_list ?vals m"
    unfolding eq by blast+
  from mem show "m \<in> set ?vals" .
  show "count_list ?vals v \<le> count_list ?vals m"
  proof (cases "v \<in> set ?vals")
    case True
    with mx show ?thesis by blast
  next
    case False
    then show ?thesis by simp
  qed
qed

text \<open>
  Claim C3, as the code has it. \<open>remove_small_grains_spec\<close> is the pass in the words of the
  claim: the IDs of the grid other than the void one are taken in ascending order; an ID
  whose count in the flattening of the argument, taken before the first turn, is at least
  the threshold is skipped, whatever the earlier turns have made of its grain; any other
  ID has all its pixels on the grid as it stands set to the mode of the values of its
  halo. On a rectangular grid that is not empty the pass does what these words say: it
  returns the grid they give, written in place, and raises \<open>ValueError\<close> where they give
  none (a halo without pixels). The mode is the first element, in the iteration order of the
  set built from the halo values, whose count among the halo values is largest: a value of
  the halo that no value outnumbers, with ties broken by the order of the set, not by the
  order in which the halo is enumerated.
\<close>

theorem remove_small_grains_refines:
  assumes "set_iter_ok set_iter" and "rectangular g" and "g \<noteq> []"
  shows "(case remove_small_grains_spec pm set_iter g threshold of
            None \<Rightarrow> outcome (remove_small_grains pm set_iter g threshold) = Inl ValueError
          | Some g' \<Rightarrow> remove_small_grains pm set_iter g threshold
                         = \<lparr>arg_after = g', stdout = [], outcome = Inr g'\<rparr>)
     \<and> (\<forall>h x_size y_size grain_id m v.
          mode_of_halo set_iter h x_size y_size grain_id = Some m \<longrightarrow>
            m \<in> set (halo_values h x_size y_size grain_id)
            \<and> count_list (halo_values h x_size y_size grain_id) v
                \<le> count_list (halo_values h x_size y_size grain_id) m)"
proof (intro conjI allI impI)
  show "case remove_small_grains_spec pm set_iter g threshold of
            None \<Rightarrow> outcome (remove_small_grains pm set_iter g threshold) = Inl ValueError
          | Some g' \<Rightarrow> remove_small_grains pm set_iter g threshold
                         = \<lparr>arg_after = g', stdout = [], outcome = Inr g'\<rparr>"
    by (rule remove_small_grains_total[OF assms])
next
  fix h x_size y_size grain_id m v
  assume m: "mode_of_halo set_iter h x_size y_size grain_id = Some m"
  show "m \<in> set (halo_values h x_size y_size grain_id)"
    by (rule mode_of_halo_Some(1)[OF assms(1) m])
  show "count_list (halo_values h x_size y_size grain_id) v
                \<le> count_list (halo_values h x_size y_size grain_id) m"
    by (rule mode_of_halo_Some(2)[OF assms(1) m])
qed

text \<open>
  On the row 1, 2, 2, 7, 7, 7 with a threshold of 3 the pixel of grain 1 goes to grain 2,
  which has three pixels when its turn comes; its count in the argument is two, so it is
  removed all the same, and the row ends as six pixels of grain 7. A grid of one grain
  below the threshold has an empty halo, and the pass raises.
\<close>

theorem remove_small_grains_refines_witness:
  "set_iter_ok ascending_iter
   \<and> rectangular [[1, 2, 2, 7, 7, 7]] \<and> [[1, 2, 2, 7, 7, 7]] \<noteq> ([]::grid)
   \<and> count_list (concat [[1, 2, 2, 7, 7, 7]]) (2::int) = 2
   \<and> remove_small_grains_spec example_pm ascending_iter [[1, 2, 2, 7, 7, 7]] 3
       = Some [[7, 7, 7, 7, 7, 7]]
   \<and> remove_small_grains example_pm ascending_iter [[1, 2, 2, 7, 7, 7]] 3
       = \<lparr>arg_after = [[7, 7, 7, 7, 7, 7]], stdout = [], outcome = Inr [[7, 7, 7, 7, 7, 7]]\<rparr>
   \<and> rectangular [[4, 4]] \<and> [[4, 4]] \<noteq> ([]::grid)
   \<and> remove_small_grains_spec example_pm ascending_iter [[4, 4]] 5 = None
   \<and> outcome (remove_small_grains example_pm ascending_iter [[4, 4]] 5) = Inl ValueError
   \<and> mode_of_halo ascending_iter [[5, 5, 1, 3, 3]] 5 1 1 = Some 3
   \<and> 3 \<in> set (halo_values [[5, 5, 1, 3, 3]] 5 1 1)
   \<and> count_list (halo_values [[5, 5, 1, 3, 3]] 5 1 1) 5
       \<le> count_list (halo_values [[5, 5, 1, 3, 3]] 5 1 1) 3"
proof -
  have r1: "rectangular [[1, 2, 2, 7, 7, 7]]" and n1: "[[1, 2, 2, 7, 7, 7]] \<noteq> ([]::grid)"
    and r2: "rectangular [[4, 4]]" and n2: "[[4, 4]] \<noteq> ([]::grid)"
    by (simp_all add: rectangular_def)
  have c: "count_list (concat [[1, 2, 2, 7, 7, 7]]) (2::int) = 2" by simp
  have s1: "remove_small_grains_spec example_pm ascending_iter [[1, 2, 2, 7, 7, 7]] 3
       = Some [[7, 7, 7, 7, 7, 7]]"
    by code_simp
  have s2: "remove_small_grains_spec example_pm ascending_iter [[4, 4]] 5 = None"
    by code_simp
  have m: "mode_of_halo ascending_iter [[5, 5, 1, 3, 3]] 5 1 1 = Some 3"
    by code_simp
  note T1 = remove_small_grains_refines[OF set_iter_ok_ascending r1 n1,
      where pm = example_pm and threshold = 3]
  note T2 = remove_small_grains_refines[OF set_iter_ok_ascending r2 n2,
      where pm = example_pm and threshold = 5]
  from T1 have p1: "remove_small_grains example_pm ascending_iter [[1, 2, 2, 7, 7, 7]] 3
       = \<lparr>arg_after = [[7, 7, 7, 7, 7, 7]], stdout = [], outcome = Inr [[7, 7, 7, 7, 7, 7]]\<rparr>"
    by (simp only: s1 option.case)
  from T2 have p2: "outcome (remove_small_grains example_pm ascending_iter [[4, 4]] 5) = Inl ValueError"
    by (simp only: s2 option.case)
  from T1 m have p3: "3 \<in> set (halo_values [[5, 5, 1, 3, 3]] 5 1 1)
      \<and> count_list (halo_values [[5, 5, 1, 3, 3]] 5 1 1) 5
           \<le> count_list (halo_values [[5, 5, 1, 3, 3]] 5 1 1) 3"
    by blast
  from set_iter_ok_ascending r1 n1 c s1 p1 r2 n2 s2 p2 m p3 show ?thesis by blast
qed

text \<open>
  Against claim C3 as stated (ties broken by first-encountered order in the halo
  enumeration): the halo of the single pixel of grain 1 is enumerated as 5, 3, each once,
  and the first mode in that order is 5; the set yields 3 first, and the pixel becomes 3.
  The mirrored grid gives 3 as well, so no enumeration order of the halo makes the claim
  true of both runs.
\<close>

theorem remove_small_grains_tie:
  "halo_values [[5, 5, 1, 3, 3]] 5 1 1 = [5, 3]
   \<and> first_max (count_list [5, 3]) [5, 3::int] = Some 5
   \<and> outcome (remove_small_grains example_pm ascending_iter [[5, 5, 1, 3, 3]] 2)
       = Inr [[5, 5, 3, 3, 3]]
   \<and> outcome (remove_small_grains example_pm ascending_iter [[3, 3, 1, 5, 5]] 2)
       = Inr [[3, 3, 3, 5, 5]]"
  by code_simp

section \<open>The merge map and its application\<close>

lemma has_orientationsD:
  assumes "has_orientations gm ids" "i \<in> set ids"
  shows "\<exists>orientation. gm i = Some orientation \<and> 3 \<le> length orientation"
  using assms by (auto simp: has_orientations_def split: option.splits)

lemma identify_j_total:
  assumes "gm id_j = Some o2" "3 \<le> length o2" "gm id_i = Some o1" "3 \<le> length o1"
  shows "identify_j ar gm thr id_i o1 id_j mm =
     Inr (if below ar gm thr id_i id_j then add_merge mm id_i id_j else mm)"
  using assms by (simp add: identify_j_def orientation_error_def below_def distance_def component_distance_def Let_def)

lemma add_merge_fresh:
  assumes "id_i \<notin> fst ` set mm"
  shows "add_merge (if l = [] then mm else mm @ [(id_i, l)]) id_i id_j = mm @ [(id_i, l @ [id_j])]"
proof (cases "l = []")
  case True
  with assms show ?thesis by (simp add: add_merge_def)
next
  case False
  have "map (\<lambda>entry. if fst entry = id_i then (fst entry, snd entry @ [id_j]) else entry) mm = mm"
    using assms by (intro map_idI) force
  with False show ?thesis by (simp add: add_merge_def)
qed

lemma inner_loop:
  assumes fresh: "id_i \<notin> fst ` set mm"
    and o1: "gm id_i = Some o1" "3 \<le> length o1"
    and js: "has_orientations gm js"
  shows "for_each (identify_j ar gm thr id_i o1) js (if l = [] then mm else mm @ [(id_i, l)])
     = Inr (if l @ filter (below ar gm thr id_i) js = [] then mm
            else mm @ [(id_i, l @ filter (below ar gm thr id_i) js)])"
  using js
proof (induction js arbitrary: l)
  case Nil
  then show ?case by simp
next
  case (Cons j js)
  have "j \<in> set (j # js)" by simp
  from has_orientationsD[OF Cons.prems this] obtain o2 where o2: "gm j = Some o2" "3 \<le> length o2"
    by blast
  have rest: "has_orientations gm js" using Cons.prems by (simp add: has_orientations_def)
  let ?S = "if l = [] then mm else mm @ [(id_i, l)]"
  have st: "identify_j ar gm thr id_i o1 j ?S =
     Inr (if below ar gm thr id_i j then add_merge ?S id_i j else ?S)"
    by (rule identify_j_total[OF o2 o1])
  show ?case
  proof (cases "below ar gm thr id_i j")
    case True
    have "add_merge ?S id_i j = mm @ [(id_i, l @ [j])]" by (rule add_merge_fresh[OF fresh])
    then have "for_each (identify_j ar gm thr id_i o1) (j # js) ?S
        = for_each (identify_j ar gm thr id_i o1) js (if l @ [j] = [] then mm else mm @ [(id_i, l @ [j])])"
      using st True by simp
    also note Cons.IH[OF rest, of "l @ [j]"]
    finally show ?thesis using True by simp
  next
    case False
    then have "for_each (identify_j ar gm thr id_i o1) (j # js) ?S
        = for_each (identify_j ar gm thr id_i o1) js ?S"
      using st by simp
    also note Cons.IH[OF rest, of l]
    finally show ?thesis using False by simp
  qed
qed

lemma identify_i_total:
  assumes "distinct ids" "has_orientations gm ids" "i < length ids"
    and fresh: "ids ! i \<notin> fst ` set mm"
  shows "identify_i ar gm thr ids i mm =
     Inr (if snd (merge_entry ar gm thr ids i) = [] then mm else mm @ [merge_entry ar gm thr ids i])"
proof -
  have "ids ! i \<in> set ids" using assms(3) by simp
  from has_orientationsD[OF assms(2) this] obtain o1 where
    o1: "gm (ids ! i) = Some o1" "3 \<le> length o1"
    by blast
  have "set (drop (i + 1) ids) \<subseteq> set ids" by (rule set_drop_subset)
  with assms(2) have js: "has_orientations gm (drop (i + 1) ids)"
    by (auto simp: has_orientations_def)
  from inner_loop[OF fresh o1 js, where l = "[]" and ar = ar and thr = thr] o1(1) show ?thesis
    by (simp add: identify_i_def merge_entry_def)
qed

lemma outer_loop:
  assumes "distinct ids" "has_orientations gm ids" "k \<le> length ids"
  shows "for_each (identify_i ar gm thr ids) [0..<k] []
     = Inr (filter (\<lambda>entry. snd entry \<noteq> []) (map (merge_entry ar gm thr ids) [0..<k]))"
  using assms(3)
proof (induction k)
  case 0
  then show ?case by simp
next
  case (Suc k)
  let ?S = "filter (\<lambda>entry. snd entry \<noteq> []) (map (merge_entry ar gm thr ids) [0..<k])"
  from Suc have IH: "for_each (identify_i ar gm thr ids) [0..<k] [] = Inr ?S" and k: "k < length ids"
    by simp_all
  have "fst ` set ?S \<subseteq> (\<lambda>i. ids ! i) ` {0..<k}"
    by (auto simp: merge_entry_def)
  moreover have "ids ! k \<notin> (\<lambda>i. ids ! i) ` {0..<k}"
    using assms(1) k by (auto simp: nth_eq_iff_index_eq)
  ultimately have fresh: "ids ! k \<notin> fst ` set ?S" by blast
  have "for_each (identify_i ar gm thr ids) [0..<Suc k] [] = for_each (identify_i ar gm thr ids) [k] ?S"
    by (simp add: for_each_append IH del: for_each.simps)
  also have "\<dots> = Inr (if snd (merge_entry ar gm thr ids k) = [] then ?S
                         else ?S @ [merge_entry ar gm thr ids k])"
    by (simp add: identify_i_total[OF assms(1,2) k fresh])
  also have "(if snd (merge_entry ar gm thr ids k) = [] then ?S else ?S @ [merge_entry ar gm thr ids k])
      = filter (\<lambda>entry. snd entry \<noteq> []) (map (merge_entry ar gm thr ids) [0..<Suc k])"
    by simp
  finally show ?case .
qed

lemma identify_total:
  assumes "distinct ids" "has_orientations gm ids"
  shows "for_each (identify_i ar gm thr ids) [0..<length ids] [] = Inr (merge_map_spec ar gm thr ids)"
  using outer_loop[OF assms, where k = "length ids" and ar = ar and thr = thr]
  by (simp add: merge_map_spec_def)

lemma merge_cell_loop:
  fixes h :: grid
  assumes "\<forall>p \<in> set ps. fst p < length h \<and> snd p < length (h ! fst p)"
  shows "\<exists>h'. for_each (merge_cell entry) ps h = Inr h'
     \<and> map length h' = map length h
     \<and> (\<forall>r c. h' ! r ! c =
           (if (r, c) \<in> set ps \<and> h ! r ! c \<in> set (snd entry) then fst entry else h ! r ! c))"
  using assms
proof (induction ps arbitrary: h)
  case Nil
  then show ?case by simp
next
  case (Cons p ps)
  have b: "fst p < length h" "snd p < length (h ! fst p)" using Cons.prems by simp_all
  let ?new = "if h ! fst p ! snd p \<in> set (snd entry) then fst entry else h ! fst p ! snd p"
  let ?h1 = "h[fst p := (h ! fst p)[snd p := ?new]]"
  have st: "merge_cell entry p h = Inr ?h1"
  proof (cases "h ! fst p ! snd p \<in> set (snd entry)")
    case True
    with b show ?thesis by (simp add: merge_cell_def px_def set_px_def)
  next
    case False
    with b show ?thesis by (simp add: merge_cell_def px_def set_px_same)
  qed
  have shape: "map length ?h1 = map length h" by (rule cell_update_shape)
  have len: "length ?h1 = length h" by simp
  have rowlen: "length (?h1 ! y) = length (h ! y)" if "y < length h" for y
    using that by (cases "y = fst p") simp_all
  have "\<forall>q \<in> set ps. fst q < length ?h1 \<and> snd q < length (?h1 ! fst q)"
    using Cons.prems rowlen by simp
  from Cons.IH[OF this] obtain h' where
    l: "for_each (merge_cell entry) ps ?h1 = Inr h'"
    and s: "map length h' = map length ?h1"
    and c: "\<forall>r c. h' ! r ! c =
           (if (r, c) \<in> set ps \<and> ?h1 ! r ! c \<in> set (snd entry) then fst entry else ?h1 ! r ! c)"
    by blast
  have h1: "?h1 ! r ! c = (if r = fst p \<and> c = snd p then ?new else h ! r ! c)" for r c
    by (rule nth_cell_update[OF b])
  have "for_each (merge_cell entry) (p # ps) h = Inr h'" using st l by simp
  moreover have "map length h' = map length h" using s shape by simp
  moreover have "h' ! r ! c =
      (if (r, c) \<in> set (p # ps) \<and> h ! r ! c \<in> set (snd entry) then fst entry else h ! r ! c)"
    for r c
  proof (cases "r = fst p \<and> c = snd p")
    case True
    then have p: "p = (r, c)" by (cases p) simp
    show ?thesis
    proof (cases "h ! r ! c \<in> set (snd entry)")
      case inl: True
      with True have "?h1 ! r ! c = fst entry" using h1[of r c] by auto
      with c have "h' ! r ! c = fst entry" by simp
      with inl p show ?thesis by simp
    next
      case nin: False
      with True have "?h1 ! r ! c = h ! r ! c" using h1[of r c] by auto
      with c nin have "h' ! r ! c = h ! r ! c" by simp
      with nin show ?thesis by simp
    qed
  next
    case False
    then have ne: "p \<noteq> (r, c)" by (cases p) auto
    from False have "?h1 ! r ! c = h ! r ! c" using h1[of r c] by presburger
    with c have "h' ! r ! c =
        (if (r, c) \<in> set ps \<and> h ! r ! c \<in> set (snd entry) then fst entry else h ! r ! c)"
      by simp
    with ne show ?thesis by auto
  qed
  ultimately show ?case by blast
qed

lemma merge_key_total:
  fixes h :: grid
  assumes shape: "map length h = replicate (length g) xs"
    and xs: "xs = (case g of [] \<Rightarrow> 0 | row0 # _ \<Rightarrow> length row0)"
  shows "merge_key g entry h = Inr (map (map (\<lambda>v. if v \<in> set (snd entry) then fst entry else v)) h)"
proof -
  let ?f = "\<lambda>v. if v \<in> set (snd entry) then fst entry else v"
  have len: "length h = length g" using shape by (metis length_map length_replicate)
  have rowlen: "length (h ! r) = xs" if "r < length g" for r
    using shape that by (metis nth_map nth_replicate length_map length_replicate)
  have b: "\<forall>p \<in> set (cells xs (length g)). fst p < length h \<and> snd p < length (h ! fst p)"
    using len rowlen by (auto simp: cells_iff)
  from merge_cell_loop[OF b, of entry] obtain h' where
    l: "for_each (merge_cell entry) (cells xs (length g)) h = Inr h'"
    and s: "map length h' = map length h"
    and c: "\<forall>r c. h' ! r ! c =
           (if (r, c) \<in> set (cells xs (length g)) \<and> h ! r ! c \<in> set (snd entry)
            then fst entry else h ! r ! c)"
    by blast
  have "h' = map (map ?f) h"
  proof (rule grid_eqI)
    show "map length h' = map length (map (map ?f) h)" using s by (simp add: comp_def)
  next
    fix r c
    assume "r < length (map (map ?f) h)" "c < length (map (map ?f) h ! r)"
    then have rb: "r < length h" and cb: "c < length (h ! r)" by simp_all
    then have "(r, c) \<in> set (cells xs (length g))" using len rowlen by (simp add: cells_iff)
    with c have "h' ! r ! c = ?f (h ! r ! c)" by simp
    with rb cb show "h' ! r ! c = map (map ?f) h ! r ! c" by simp
  qed
  with l show ?thesis by (simp add: merge_key_def xs)
qed

lemma apply_loop:
  fixes h :: grid
  assumes shape: "map length h = replicate (length g) xs"
    and xs: "xs = (case g of [] \<Rightarrow> 0 | row0 # _ \<Rightarrow> length row0)"
  shows "for_each (merge_key g) mm h = Inr (apply_merges mm h)"
  using shape
proof (induction mm arbitrary: h)
  case Nil
  then show ?case by (simp add: apply_merges_def)
next
  case (Cons entry mm)
  let ?h1 = "map (map (\<lambda>v. if v \<in> set (snd entry) then fst entry else v)) h"
  have st: "merge_key g entry h = Inr ?h1" by (rule merge_key_total[OF Cons.prems xs])
  have "map length ?h1 = replicate (length g) xs" using Cons.prems by (simp add: comp_def)
  from Cons.IH[OF this] st show ?case by (simp add: apply_merges_def)
qed

lemma rectangular_case_shape:
  assumes "rectangular g"
  shows "map length g = replicate (length g) (case g of [] \<Rightarrow> 0 | row0 # _ \<Rightarrow> length row0)"
proof (cases g)
  case Nil
  then show ?thesis by simp
next
  case (Cons row0 rest)
  with rectangular_shape[OF assms] show ?thesis by simp
qed

lemma arg_after_merge_grains: "arg_after (merge_grains pm set_iter ar g gm thr) = g"
  unfolding merge_grains_cases by (simp split: sum.splits)

section \<open>The claim about the algorithm of \<^verbatim>\<open>merge_grains\<close>\<close>

text \<open>
  Claim C4. The claim's words are the definitions \<open>merge_map_spec\<close> (for each index \<open>i\<close> of
  the ascending ID list, the later IDs whose distance to \<open>id_list ! i\<close> is strictly below
  the threshold, in list order; entries in the order of \<open>i\<close>; no entry for an empty list;
  an ID may stand in several lists) and \<open>apply_merges\<close> (for each entry in order, every
  pixel whose current value is in the entry's list is set to the entry's key). The distance
  and its comparison with the threshold are those of the arithmetic \<open>ar\<close> of the run, of
  which nothing is assumed: for floats, the rounded sum is compared. The pass
  never writes the argument object, whether it returns or raises; on a rectangular grid
  whose IDs all have an orientation of three components it returns, and what it returns is
  \<open>apply_merges\<close> of \<open>merge_map_spec\<close>.
\<close>

theorem merge_grains_refines:
  "arg_after (merge_grains pm set_iter ar g gm thr) = g
   \<and> (set_iter_ok set_iter \<and> rectangular g
        \<and> has_orientations gm (fst (get_sorted_grain_id_list pm set_iter g)) \<longrightarrow>
      sorted (fst (get_sorted_grain_id_list pm set_iter g))
      \<and> distinct (fst (get_sorted_grain_id_list pm set_iter g))
      \<and> outcome (merge_grains pm set_iter ar g gm thr)
          = Inr (apply_merges
                   (merge_map_spec ar gm thr (fst (get_sorted_grain_id_list pm set_iter g))) g))"
proof (intro conjI impI)
  show "arg_after (merge_grains pm set_iter ar g gm thr) = g" by (rule arg_after_merge_grains)
next
  assume a: "set_iter_ok set_iter \<and> rectangular g
        \<and> has_orientations gm (fst (get_sorted_grain_id_list pm set_iter g))"
  then show "sorted (fst (get_sorted_grain_id_list pm set_iter g))"
    by (simp add: id_list_props(3))
  from a show "distinct (fst (get_sorted_grain_id_list pm set_iter g))"
    by (simp add: id_list_props(2))
  let ?ids = "fst (get_sorted_grain_id_list pm set_iter g)"
  from a have d: "distinct ?ids" by (simp add: id_list_props(2))
  from a have ho: "has_orientations gm ?ids" by simp
  have ident: "for_each (identify_i ar gm thr ?ids) [0..<length ?ids] [] = Inr (merge_map_spec ar gm thr ?ids)"
    by (rule identify_total[OF d ho])
  from a have "rectangular g" by simp
  then have app: "for_each (merge_key g) (merge_map_spec ar gm thr ?ids) g
      = Inr (apply_merges (merge_map_spec ar gm thr ?ids) g)"
    by (intro apply_loop[OF rectangular_case_shape refl])
  show "outcome (merge_grains pm set_iter ar g gm thr) = Inr (apply_merges (merge_map_spec ar gm thr ?ids) g)"
    unfolding merge_grains_cases by (simp add: ident app)
qed

theorem merge_grains_refines_witness:
  "set_iter_ok remdups \<and> rectangular [[2, 3], [4, 1]]
   \<and> has_orientations example_grain_map (fst (get_sorted_grain_id_list example_pm remdups [[2, 3], [4, 1]]))
   \<and> fst (get_sorted_grain_id_list example_pm remdups [[2, 3], [4, 1]]) = [1, 2, 3, 4]
   \<and> merge_map_spec exact_arithmetic example_grain_map 10 [1, 2, 3, 4] = [(1, [2, 3]), (2, [3])]
   \<and> apply_merges [(1, [2, 3]), (2, [3])] [[2, 3], [4, 1]] = [[1, 1], [4, 1]]
   \<and> outcome (merge_grains example_pm remdups exact_arithmetic [[2, 3], [4, 1]] example_grain_map 10)
       = Inr [[1, 1], [4, 1]]
   \<and> arg_after (merge_grains example_pm remdups exact_arithmetic [[2, 3], [4, 1]] example_grain_map 10)
       = [[2, 3], [4, 1]]"
proof -
  have r: "rectangular [[2, 3], [4, 1]]" by (simp add: rectangular_def)
  have ids: "fst (get_sorted_grain_id_list example_pm remdups [[2, 3], [4, 1]]) = [1, 2, 3, 4]"
    by code_simp
  have ho: "has_orientations example_grain_map
      (fst (get_sorted_grain_id_list example_pm remdups [[2, 3], [4, 1]]))"
    unfolding ids by (simp add: has_orientations_def example_grain_map_def)
  have mm: "merge_map_spec exact_arithmetic example_grain_map 10 [1, 2, 3, 4] = [(1, [2, 3]), (2, [3])]"
    by code_simp
  have ap: "apply_merges [(1, [2, 3]), (2, [3])] [[2, 3], [4, 1]] = [[1, 1], [4, 1]]"
    by code_simp
  note T = merge_grains_refines[where pm = example_pm and set_iter = remdups
      and ar = exact_arithmetic and g = "[[2, 3], [4, 1]]" and gm = example_grain_map and thr = 10]
  from T have aa: "arg_after (merge_grains example_pm remdups exact_arithmetic [[2, 3], [4, 1]] example_grain_map 10)
       = [[2, 3], [4, 1]]"
    by blast
  from T set_iter_ok_remdups r ho
  have "outcome (merge_grains example_pm remdups exact_arithmetic [[2, 3], [4, 1]] example_grain_map 10)
      = Inr (apply_merges (merge_map_spec exact_arithmetic example_grain_map 10
               (fst (get_sorted_grain_id_list example_pm remdups [[2, 3], [4, 1]]))) [[2, 3], [4, 1]])"
    by blast
  then have out: "outcome (merge_grains example_pm remdups exact_arithmetic [[2, 3], [4, 1]] example_grain_map 10)
       = Inr [[1, 1], [4, 1]]"
    by (simp only: ids mm ap)
  from set_iter_ok_remdups r ho ids mm ap out aa show ?thesis by blast
qed

section \<open>Unoriented pixels under the merges\<close>

lemma shape_bounds:
  assumes "map length g' = map length g" "r < length g" "c < length (g ! r)"
  shows "r < length g' \<and> c < length (g' ! r)"
proof -
  have len: "length g' = length g" using assms(1) by (metis length_map)
  moreover have "length (g' ! r) = length (g ! r)"
    using assms(1,2) len by (metis nth_map)
  ultimately show ?thesis using assms(2,3) by simp
qed

lemma apply_merges_keeps:
  assumes "\<forall>entry \<in> set mm. u \<notin> set (snd entry)"
    and "r < length g" "c < length (g ! r)" "g ! r ! c = u"
  shows "map length (apply_merges mm g) = map length g \<and> apply_merges mm g ! r ! c = u"
  using assms
proof (induction mm arbitrary: g)
  case Nil
  then show ?case by (simp add: apply_merges_def)
next
  case (Cons entry mm)
  let ?g1 = "map (map (\<lambda>v. if v \<in> set (snd entry) then fst entry else v)) g"
  have sh: "map length ?g1 = map length g" by (simp add: comp_def)
  have b: "r < length ?g1" "c < length (?g1 ! r)" using Cons.prems(2,3) by simp_all
  have "u \<notin> set (snd entry)" using Cons.prems(1) by simp
  then have v: "?g1 ! r ! c = u" using Cons.prems(2,3,4) by simp
  have rest: "\<forall>e \<in> set mm. u \<notin> set (snd e)" using Cons.prems(1) by simp
  from Cons.IH[OF rest b v] sh show ?case by (simp add: apply_merges_def)
qed

lemma merge_map_spec_lists:
  assumes s: "sorted ids" and d: "distinct ids"
    and e: "entry \<in> set (merge_map_spec ar gm thr ids)" and u: "u \<in> set (snd entry)"
  shows "fst entry \<in> set ids \<and> fst entry < u \<and> below ar gm thr (fst entry) u"
proof -
  from e obtain i where i: "i < length ids" and entry: "entry = merge_entry ar gm thr ids i"
    by (auto simp: merge_map_spec_def)
  from u have ud: "u \<in> set (drop (i + 1) ids)" and dist: "below ar gm thr (ids ! i) u"
    by (simp_all add: entry merge_entry_def)
  from ud obtain j where j: "j < length (drop (i + 1) ids)" and uj: "drop (i + 1) ids ! j = u"
    by (metis in_set_conv_nth)
  then have jl: "i + 1 + j < length ids" and uj': "ids ! (i + 1 + j) = u" by simp_all
  have "ids ! i \<le> ids ! (i + 1 + j)" using s jl by (intro sorted_nth_mono) simp_all
  moreover have "ids ! i \<noteq> ids ! (i + 1 + j)"
    using d i jl by (simp add: nth_eq_iff_index_eq)
  ultimately have "ids ! i < u" using uj' by simp
  with dist i show ?thesis by (simp add: entry merge_entry_def)
qed

section \<open>The claim about unoriented pixels\<close>

text \<open>
  Claim C1, as the code has it. A pixel holding \<^verbatim>\<open>UNORIENTED_PIXEL_ID\<close> in the input has
  the same value at the same position in the result of \<^verbatim>\<open>clean_pixel_grid\<close> and of
  \<^verbatim>\<open>smoothen_edges\<close> (both skip such pixels) and of \<^verbatim>\<open>pad_edges\<close> (which copies every
  non-void pixel of the columns it visits). \<^verbatim>\<open>remove_small_grains\<close> and \<^verbatim>\<open>merge_grains\<close>
  treat the ID as any grain ID: the first keeps these pixels when the count of the ID in the
  input is at least the threshold, the second when no smaller ID of the grid is, with the
  ID, below the threshold in the arithmetic of the run.
\<close>

theorem unoriented_cells_kept:
  assumes "r < length g" and "c < length (g ! r)" and "g ! r ! c = UNORIENTED_PIXEL_ID pm"
  shows "(outcome (clean_pixel_grid pm rng g) = Inr g' \<longrightarrow>
            r < length g' \<and> c < length (g' ! r) \<and> g' ! r ! c = UNORIENTED_PIXEL_ID pm)
     \<and> (outcome (smoothen_edges pm rng g) = Inr g' \<longrightarrow>
            r < length g' \<and> c < length (g' ! r) \<and> g' ! r ! c = UNORIENTED_PIXEL_ID pm)
     \<and> (outcome (pad_edges pm rng g) = Inr g' \<and> c < length (hd g)
          \<and> UNORIENTED_PIXEL_ID pm \<noteq> VOID_PIXEL_ID pm \<longrightarrow>
            r < length g' \<and> c < length (g' ! r) \<and> g' ! r ! c = UNORIENTED_PIXEL_ID pm)
     \<and> (outcome (remove_small_grains pm set_iter g threshold) = Inr g'
          \<and> threshold \<le> int (count_list (concat g) (UNORIENTED_PIXEL_ID pm)) \<longrightarrow>
            r < length g' \<and> c < length (g' ! r) \<and> g' ! r ! c = UNORIENTED_PIXEL_ID pm)
     \<and> (outcome (merge_grains pm set_iter ar g gm thr) = Inr g'
          \<and> set_iter_ok set_iter \<and> rectangular g
          \<and> has_orientations gm (fst (get_sorted_grain_id_list pm set_iter g))
          \<and> (\<forall>i \<in> set (fst (get_sorted_grain_id_list pm set_iter g)).
                i < UNORIENTED_PIXEL_ID pm \<longrightarrow> \<not> below ar gm thr i (UNORIENTED_PIXEL_ID pm)) \<longrightarrow>
            r < length g' \<and> c < length (g' ! r) \<and> g' ! r ! c = UNORIENTED_PIXEL_ID pm)"
proof (intro conjI impI)
  assume a: "outcome (clean_pixel_grid pm rng g) = Inr g'"
  from shape_bounds[OF clean_pixel_grid_keeps(1)[OF a] assms(1,2)]
    clean_pixel_grid_keeps(2)[OF a assms(3)]
  show "r < length g'" and "c < length (g' ! r)" and "g' ! r ! c = UNORIENTED_PIXEL_ID pm"
    by simp_all
next
  assume a: "outcome (smoothen_edges pm rng g) = Inr g'"
  from shape_bounds[OF smoothen_edges_keeps(1)[OF a] assms(1,2)]
    smoothen_edges_keeps(2)[OF a assms(3)]
  show "r < length g'" and "c < length (g' ! r)" and "g' ! r ! c = UNORIENTED_PIXEL_ID pm"
    by simp_all
next
  assume a: "outcome (pad_edges pm rng g) = Inr g' \<and> c < length (hd g)
          \<and> UNORIENTED_PIXEL_ID pm \<noteq> VOID_PIXEL_ID pm"
  then have res: "outcome (pad_edges pm rng g) = Inr g'" and c: "c < length (hd g)"
    and nv: "UNORIENTED_PIXEL_ID pm \<noteq> VOID_PIXEL_ID pm"
    by simp_all
  have sh: "map length g' = replicate (length g) (length (hd g))"
    by (rule pad_edges_pointwise(1)[OF res])
  then have len: "length g' = length g" by (metis length_map length_replicate)
  have "length (g' ! r) = length (hd g)"
    using sh assms(1) len by (metis nth_map nth_replicate)
  with len assms(1) c show "r < length g'" and "c < length (g' ! r)" by simp_all
  from pad_edges_pointwise(2)[OF res assms(1) c] assms(3) nv
  show "g' ! r ! c = UNORIENTED_PIXEL_ID pm" by simp
next
  assume a: "outcome (remove_small_grains pm set_iter g threshold) = Inr g'
          \<and> threshold \<le> int (count_list (concat g) (UNORIENTED_PIXEL_ID pm))"
  then have res: "outcome (remove_small_grains pm set_iter g threshold) = Inr g'"
    and big: "threshold \<le> int (count_list (concat g) (UNORIENTED_PIXEL_ID pm))"
    by simp_all
  from shape_bounds[OF remove_small_grains_keeps(1)[OF res big] assms(1,2)]
    remove_small_grains_keeps(2)[OF res big assms(3)]
  show "r < length g'" and "c < length (g' ! r)" and "g' ! r ! c = UNORIENTED_PIXEL_ID pm"
    by simp_all
next
  let ?ids = "fst (get_sorted_grain_id_list pm set_iter g)"
  assume a: "outcome (merge_grains pm set_iter ar g gm thr) = Inr g'
          \<and> set_iter_ok set_iter \<and> rectangular g
          \<and> has_orientations gm ?ids
          \<and> (\<forall>i \<in> set ?ids. i < UNORIENTED_PIXEL_ID pm \<longrightarrow> \<not> below ar gm thr i (UNORIENTED_PIXEL_ID pm))"
  then have res: "outcome (merge_grains pm set_iter ar g gm thr) = Inr g'"
    and ok: "set_iter_ok set_iter" and rect: "rectangular g" and ho: "has_orientations gm ?ids"
    and far: "\<forall>i \<in> set ?ids. i < UNORIENTED_PIXEL_ID pm \<longrightarrow> \<not> below ar gm thr i (UNORIENTED_PIXEL_ID pm)"
    by simp_all
  have d: "distinct ?ids" and s: "sorted ?ids"
    by (simp_all add: id_list_props[OF ok])
  have ident: "for_each (identify_i ar gm thr ?ids) [0..<length ?ids] [] = Inr (merge_map_spec ar gm thr ?ids)"
    by (rule identify_total[OF d ho])
  have app: "for_each (merge_key g) (merge_map_spec ar gm thr ?ids) g
      = Inr (apply_merges (merge_map_spec ar gm thr ?ids) g)"
    using rect by (intro apply_loop[OF rectangular_case_shape refl])
  have "outcome (merge_grains pm set_iter ar g gm thr) = Inr (apply_merges (merge_map_spec ar gm thr ?ids) g)"
    unfolding merge_grains_cases by (simp add: ident app)
  with res have g': "g' = apply_merges (merge_map_spec ar gm thr ?ids) g" by simp
  have "\<forall>entry \<in> set (merge_map_spec ar gm thr ?ids). UNORIENTED_PIXEL_ID pm \<notin> set (snd entry)"
  proof
    fix entry assume e: "entry \<in> set (merge_map_spec ar gm thr ?ids)"
    show "UNORIENTED_PIXEL_ID pm \<notin> set (snd entry)"
    proof
      assume "UNORIENTED_PIXEL_ID pm \<in> set (snd entry)"
      from merge_map_spec_lists[OF s d e this] far show False by blast
    qed
  qed
  from apply_merges_keeps[OF this assms] have
    sh: "map length g' = map length g" and v: "g' ! r ! c = UNORIENTED_PIXEL_ID pm"
    unfolding g' by simp_all
  from shape_bounds[OF sh assms(1,2)] v
  show "r < length g'" and "c < length (g' ! r)" and "g' ! r ! c = UNORIENTED_PIXEL_ID pm"
    by simp_all
qed

theorem unoriented_cells_kept_witness:
  "1 < length unoriented_grid \<and> 0 < length (unoriented_grid ! 1)
   \<and> unoriented_grid ! 1 ! 0 = UNORIENTED_PIXEL_ID example_pm
   \<and> outcome (clean_pixel_grid example_pm one_draws unoriented_grid) = Inr [[9, 1, 1], [9, 5, 5]]
   \<and> [[9, 1, 1], [9, 5, 5]] ! 1 ! 0 = UNORIENTED_PIXEL_ID example_pm
   \<and> outcome (smoothen_edges example_pm one_draws unoriented_grid) = Inr [[9, 1, 1], [9, 1, 1]]
   \<and> [[9, 1, 1], [9, 1, 1]] ! 1 ! 0 = UNORIENTED_PIXEL_ID example_pm
   \<and> outcome (pad_edges example_pm zero_draws unoriented_grid) = Inr [[9, 9, 1], [9, 5, 5]]
   \<and> 0 < length (hd unoriented_grid)
   \<and> UNORIENTED_PIXEL_ID example_pm \<noteq> VOID_PIXEL_ID example_pm
   \<and> [[9, 9, 1], [9, 5, 5]] ! 1 ! 0 = UNORIENTED_PIXEL_ID example_pm
   \<and> outcome (remove_small_grains example_pm ascending_iter unoriented_grid 2)
       = Inr [[9, 0, 5], [9, 5, 5]]
   \<and> 2 \<le> int (count_list (concat unoriented_grid) (UNORIENTED_PIXEL_ID example_pm))
   \<and> [[9, 0, 5], [9, 5, 5]] ! 1 ! 0 = UNORIENTED_PIXEL_ID example_pm
   \<and> outcome (merge_grains example_pm ascending_iter exact_arithmetic unoriented_grid unoriented_grain_map 10)
       = Inr [[9, 0, 1], [9, 1, 1]]
   \<and> set_iter_ok ascending_iter \<and> rectangular unoriented_grid
   \<and> has_orientations unoriented_grain_map
        (fst (get_sorted_grain_id_list example_pm ascending_iter unoriented_grid))
   \<and> [[9, 0, 1], [9, 1, 1]] ! 1 ! 0 = UNORIENTED_PIXEL_ID example_pm"
proof -
  have b: "1 < length unoriented_grid" "0 < length (unoriented_grid ! 1)"
    by (simp_all add: unoriented_grid_def)
  have u: "unoriented_grid ! 1 ! 0 = UNORIENTED_PIXEL_ID example_pm"
    by (simp add: unoriented_grid_def example_pm_def)
  have r1: "outcome (clean_pixel_grid example_pm one_draws unoriented_grid) = Inr [[9, 1, 1], [9, 5, 5]]"
    by code_simp
  have r2: "outcome (smoothen_edges example_pm one_draws unoriented_grid) = Inr [[9, 1, 1], [9, 1, 1]]"
    by code_simp
  have r3: "outcome (pad_edges example_pm zero_draws unoriented_grid) = Inr [[9, 9, 1], [9, 5, 5]]"
    by code_simp
  have h3: "0 < length (hd unoriented_grid)" by (simp add: unoriented_grid_def)
  have nv: "UNORIENTED_PIXEL_ID example_pm \<noteq> VOID_PIXEL_ID example_pm"
    by (simp add: example_pm_def)
  have r4: "outcome (remove_small_grains example_pm ascending_iter unoriented_grid 2)
       = Inr [[9, 0, 5], [9, 5, 5]]"
    by code_simp
  have h4: "2 \<le> int (count_list (concat unoriented_grid) (UNORIENTED_PIXEL_ID example_pm))"
    by (simp add: unoriented_grid_def example_pm_def)
  have r5: "outcome (merge_grains example_pm ascending_iter exact_arithmetic unoriented_grid unoriented_grain_map 10)
       = Inr [[9, 0, 1], [9, 1, 1]]"
    by code_simp
  have rect: "rectangular unoriented_grid" by (simp add: rectangular_def unoriented_grid_def)
  have ids: "fst (get_sorted_grain_id_list example_pm ascending_iter unoriented_grid) = [1, 5, 9]"
    by code_simp
  have ho: "has_orientations unoriented_grain_map
      (fst (get_sorted_grain_id_list example_pm ascending_iter unoriented_grid))"
    unfolding ids by (simp add: has_orientations_def unoriented_grain_map_def)
  have far: "\<forall>i \<in> set (fst (get_sorted_grain_id_list example_pm ascending_iter unoriented_grid)).
      i < UNORIENTED_PIXEL_ID example_pm
        \<longrightarrow> \<not> below exact_arithmetic unoriented_grain_map 10 i (UNORIENTED_PIXEL_ID example_pm)"
    unfolding ids by (simp add: below_def distance_def component_distance_def exact_arithmetic_def unoriented_grain_map_def example_pm_def)
  from unoriented_cells_kept[OF b u, where rng = one_draws and g' = "[[9, 1, 1], [9, 5, 5]]" and set_iter = ascending_iter
      and threshold = 2 and ar = exact_arithmetic and gm = unoriented_grain_map and thr = 10] r1
  have c1: "[[9, 1, 1], [9, 5, 5]] ! 1 ! 0 = UNORIENTED_PIXEL_ID example_pm" by blast
  from unoriented_cells_kept[OF b u, where rng = one_draws and g' = "[[9, 1, 1], [9, 1, 1]]" and set_iter = ascending_iter
      and threshold = 2 and ar = exact_arithmetic and gm = unoriented_grain_map and thr = 10] r2
  have c2: "[[9, 1, 1], [9, 1, 1]] ! 1 ! 0 = UNORIENTED_PIXEL_ID example_pm" by blast
  from unoriented_cells_kept[OF b u, where rng = zero_draws and g' = "[[9, 9, 1], [9, 5, 5]]" and set_iter = ascending_iter
      and threshold = 2 and ar = exact_arithmetic and gm = unoriented_grain_map and thr = 10] r3 h3 nv
  have c3: "[[9, 9, 1], [9, 5, 5]] ! 1 ! 0 = UNORIENTED_PIXEL_ID example_pm" by blast
  from unoriented_cells_kept[OF b u, where g' = "[[9, 0, 5], [9, 5, 5]]" and rng = zero_draws
      and set_iter = ascending_iter and threshold = 2 and ar = exact_arithmetic
      and gm = unoriented_grain_map and thr = 10] r4 h4
  have c4: "[[9, 0, 5], [9, 5, 5]] ! 1 ! 0 = UNORIENTED_PIXEL_ID example_pm" by blast
  from unoriented_cells_kept[OF b u, where g' = "[[9, 0, 1], [9, 1, 1]]" and rng = zero_draws
      and set_iter = ascending_iter and threshold = 2 and ar = exact_arithmetic
      and gm = unoriented_grain_map and thr = 10]
    r5 set_iter_ok_ascending rect ho far
  have c5: "[[9, 0, 1], [9, 1, 1]] ! 1 ! 0 = UNORIENTED_PIXEL_ID example_pm" by blast
  from b u r1 c1 r2 c2 r3 h3 nv c3 r4 h4 c4 r5 set_iter_ok_ascending rect ho c5
  show ?thesis by blast
qed

text \<open>
  Against claim C1 as stated: with a threshold of 3 the two unoriented pixels are a small
  grain and \<^verbatim>\<open>remove_small_grains\<close> reassigns them; with a threshold of 1000 their
  orientation is within the threshold of grain 1 and \<^verbatim>\<open>merge_grains\<close> relabels them.
\<close>

theorem unoriented_cells_relabelled:
  "unoriented_grid ! 0 ! 0 = UNORIENTED_PIXEL_ID example_pm
   \<and> outcome (remove_small_grains example_pm ascending_iter unoriented_grid 3)
       = Inr [[0, 0, 0], [0, 0, 0]]
   \<and> outcome (merge_grains example_pm ascending_iter exact_arithmetic unoriented_grid unoriented_grain_map 1000)
       = Inr [[1, 0, 1], [1, 1, 1]]"
  by code_simp

section \<open>Inputs that the passes do not check\<close>

lemma sign_rules_exact: "sign_rules exact_arithmetic"
  by (simp add: sign_rules_def not_negative_def not_positive_def exact_arithmetic_def)

lemma not_below:
  assumes "sign_rules ar" and "not_positive ar thr"
  shows "\<not> below ar gm thr id_i id_j"
proof -
  define a where "a = the (gm id_i)"
  define b where "b = the (gm id_j)"
  have d: "not_negative ar (component_distance ar a b k)" for k
    using assms(1) by (simp add: sign_rules_def component_distance_def)
  have z: "not_negative ar (num_zero ar)" using assms(1) by (simp add: sign_rules_def)
  have add: "not_negative ar (num_add ar x y)" if "not_negative ar x" "not_negative ar y" for x y
    using assms(1) that by (simp add: sign_rules_def)
  have "not_negative ar (distance ar gm id_i id_j)"
    unfolding distance_def Let_def a_def[symmetric] b_def[symmetric]
    by (simp add: add z d)
  with assms show ?thesis by (simp add: below_def sign_rules_def)
qed

lemma merge_map_spec_low_threshold:
  assumes "sign_rules ar" and "not_positive ar thr"
  shows "merge_map_spec ar gm thr ids = []"
  by (simp add: merge_map_spec_def merge_entry_def not_below[OF assms] filter_empty_conv)

lemma merge_grains_low_threshold:
  assumes ok: "set_iter_ok set_iter" and "sign_rules ar" and "not_positive ar thr"
    and ho: "has_orientations gm (fst (get_sorted_grain_id_list pm set_iter g))"
  shows "merge_grains pm set_iter ar g gm thr =
     \<lparr>arg_after = g,
      stdout = summary (length (fst (get_sorted_grain_id_list pm set_iter g)))
                 (length (fst (get_sorted_grain_id_list pm set_iter g))),
      outcome = Inr g\<rparr>"
proof -
  let ?ids = "fst (get_sorted_grain_id_list pm set_iter g)"
  have d: "distinct ?ids" by (rule id_list_props(2)[OF ok])
  have "for_each (identify_i ar gm thr ?ids) [0..<length ?ids] [] = Inr (merge_map_spec ar gm thr ?ids)"
    by (rule identify_total[OF d ho])
  then have "for_each (identify_i ar gm thr ?ids) [0..<length ?ids] [] = Inr []"
    by (simp only: merge_map_spec_low_threshold[OF assms(2,3)])
  then show ?thesis unfolding merge_grains_cases by simp
qed

text \<open>
  Claim C2, as the code has it: no pass validates its input. On the empty grid the four
  passes that read \<^verbatim>\<open>pixel_grid[0]\<close> raise \<open>IndexError\<close> with nothing written, and
  \<^verbatim>\<open>merge_grains\<close> returns the empty grid. A threshold that is not positive is accepted:
  \<^verbatim>\<open>remove_small_grains\<close> then returns the non-empty grid as it was, and \<^verbatim>\<open>merge_grains\<close>,
  given an orientation for every ID of the grid, merges nothing and returns a copy equal to
  its argument. The last holds in every arithmetic that obeys \<open>sign_rules\<close> (an absolute
  value, and a sum of numbers that are not negative, is not negative, and no such number is
  below one that is not positive), as the integers and the floats of Python do.
\<close>

theorem no_input_validation:
  "clean_pixel_grid pm rng [] = \<lparr>arg_after = [], stdout = [], outcome = Inl IndexError\<rparr>
   \<and> smoothen_edges pm rng [] = \<lparr>arg_after = [], stdout = [], outcome = Inl IndexError\<rparr>
   \<and> pad_edges pm rng [] = \<lparr>arg_after = [], stdout = [], outcome = Inl IndexError\<rparr>
   \<and> remove_small_grains pm set_iter [] threshold
       = \<lparr>arg_after = [], stdout = [], outcome = Inl IndexError\<rparr>
   \<and> (set_iter_ok set_iter \<longrightarrow>
        merge_grains pm set_iter ar [] gm thr = \<lparr>arg_after = [], stdout = summary 0 0, outcome = Inr []\<rparr>)
   \<and> (threshold \<le> 0 \<and> g \<noteq> [] \<longrightarrow>
        remove_small_grains pm set_iter g threshold = \<lparr>arg_after = g, stdout = [], outcome = Inr g\<rparr>)
   \<and> (set_iter_ok set_iter \<and> sign_rules ar \<and> not_positive ar thr
        \<and> has_orientations gm (fst (get_sorted_grain_id_list pm set_iter g)) \<longrightarrow>
        merge_grains pm set_iter ar g gm thr =
          \<lparr>arg_after = g,
           stdout = summary (length (fst (get_sorted_grain_id_list pm set_iter g)))
                      (length (fst (get_sorted_grain_id_list pm set_iter g))),
           outcome = Inr g\<rparr>)"
proof (intro conjI impI)
  show "clean_pixel_grid pm rng [] = \<lparr>arg_after = [], stdout = [], outcome = Inl IndexError\<rparr>"
    by (simp add: clean_pixel_grid_def)
  show "smoothen_edges pm rng [] = \<lparr>arg_after = [], stdout = [], outcome = Inl IndexError\<rparr>"
    by (simp add: smoothen_edges_def)
  show "pad_edges pm rng [] = \<lparr>arg_after = [], stdout = [], outcome = Inl IndexError\<rparr>"
    by (simp add: pad_edges_def)
  show "remove_small_grains pm set_iter [] threshold
       = \<lparr>arg_after = [], stdout = [], outcome = Inl IndexError\<rparr>"
    by (simp add: remove_small_grains_def)
next
  assume "set_iter_ok set_iter"
  then show "merge_grains pm set_iter ar [] gm thr
      = \<lparr>arg_after = [], stdout = summary 0 0, outcome = Inr []\<rparr>"
    by (rule merge_grains_empty)
next
  assume "threshold \<le> 0 \<and> g \<noteq> []"
  then show "remove_small_grains pm set_iter g threshold
      = \<lparr>arg_after = g, stdout = [], outcome = Inr g\<rparr>"
    using remove_small_grains_low_threshold by blast
next
  assume a: "set_iter_ok set_iter \<and> sign_rules ar \<and> not_positive ar thr
        \<and> has_orientations gm (fst (get_sorted_grain_id_list pm set_iter g))"
  then have ok: "set_iter_ok set_iter" and sr: "sign_rules ar" and np: "not_positive ar thr"
    and ho: "has_orientations gm (fst (get_sorted_grain_id_list pm set_iter g))"
    by simp_all
  show "merge_grains pm set_iter ar g gm thr =
          \<lparr>arg_after = g,
           stdout = summary (length (fst (get_sorted_grain_id_list pm set_iter g)))
                      (length (fst (get_sorted_grain_id_list pm set_iter g))),
           outcome = Inr g\<rparr>"
    by (rule merge_grains_low_threshold[OF ok sr np ho])
qed

theorem no_input_validation_witness:
  "set_iter_ok remdups
   \<and> (0::int) \<le> 0 \<and> [[3, 3, 1, 5, 5]] \<noteq> ([]::grid)
   \<and> sign_rules exact_arithmetic \<and> not_positive exact_arithmetic 0
   \<and> has_orientations example_grain_map (fst (get_sorted_grain_id_list example_pm remdups [[2, 3], [4, 1]]))
   \<and> merge_grains example_pm remdups exact_arithmetic [] example_grain_map 0
       = \<lparr>arg_after = [], stdout = summary 0 0, outcome = Inr []\<rparr>
   \<and> remove_small_grains example_pm remdups [[3, 3, 1, 5, 5]] 0
       = \<lparr>arg_after = [[3, 3, 1, 5, 5]], stdout = [], outcome = Inr [[3, 3, 1, 5, 5]]\<rparr>
   \<and> merge_grains example_pm remdups exact_arithmetic [[2, 3], [4, 1]] example_grain_map 0
       = \<lparr>arg_after = [[2, 3], [4, 1]], stdout = summary 4 4, outcome = Inr [[2, 3], [4, 1]]\<rparr>"
proof -
  have ids: "fst (get_sorted_grain_id_list example_pm remdups [[2, 3], [4, 1]]) = [1, 2, 3, 4]"
    by code_simp
  have ho: "has_orientations example_grain_map
      (fst (get_sorted_grain_id_list example_pm remdups [[2, 3], [4, 1]]))"
    unfolding ids by (simp add: has_orientations_def example_grain_map_def)
  have np: "not_positive exact_arithmetic 0"
    by (simp add: not_positive_def exact_arithmetic_def)
  have h: "(0::int) \<le> 0 \<and> [[3, 3, 1, 5, 5]] \<noteq> ([]::grid)" by simp
  note T1 = no_input_validation[where pm = example_pm and set_iter = remdups
      and ar = exact_arithmetic and threshold = 0 and gm = example_grain_map and thr = 0
      and g = "[[3, 3, 1, 5, 5]]" and rng = zero_draws]
  note T2 = no_input_validation[where pm = example_pm and set_iter = remdups
      and ar = exact_arithmetic and threshold = 0 and gm = example_grain_map and thr = 0
      and g = "[[2, 3], [4, 1]]" and rng = zero_draws]
  from T1 set_iter_ok_remdups have a:
    "merge_grains example_pm remdups exact_arithmetic [] example_grain_map 0
       = \<lparr>arg_after = [], stdout = summary 0 0, outcome = Inr []\<rparr>"
    by blast
  from T1 h have b: "remove_small_grains example_pm remdups [[3, 3, 1, 5, 5]] 0
       = \<lparr>arg_after = [[3, 3, 1, 5, 5]], stdout = [], outcome = Inr [[3, 3, 1, 5, 5]]\<rparr>"
    by blast
  from T2 set_iter_ok_remdups sign_rules_exact np ho
  have "merge_grains example_pm remdups exact_arithmetic [[2, 3], [4, 1]] example_grain_map 0 =
          \<lparr>arg_after = [[2, 3], [4, 1]],
           stdout = summary (length (fst (get_sorted_grain_id_list example_pm remdups [[2, 3], [4, 1]])))
                      (length (fst (get_sorted_grain_id_list example_pm remdups [[2, 3], [4, 1]]))),
           outcome = Inr [[2, 3], [4, 1]]\<rparr>"
    by blast
  moreover have "length [1, 2, 3, 4::int] = 4" by simp
  ultimately have c:
    "merge_grains example_pm remdups exact_arithmetic [[2, 3], [4, 1]] example_grain_map 0
       = \<lparr>arg_after = [[2, 3], [4, 1]], stdout = summary 4 4, outcome = Inr [[2, 3], [4, 1]]\<rparr>"
    by (simp only: ids)
  from set_iter_ok_remdups h sign_rules_exact np ho a b c show ?thesis by blast
qed

text \<open>
  Against claim C2 as stated: a zero and a negative threshold make \<^verbatim>\<open>remove_small_grains\<close>
  return normally; the empty grid raises \<open>IndexError\<close>; and on a ragged grid
  \<^verbatim>\<open>clean_pixel_grid\<close> has already filled the first pixel when it raises.
\<close>

theorem no_input_validation_counterexample:
  "remove_small_grains example_pm ascending_iter [[3, 3, 1, 5, 5]] 0
     = \<lparr>arg_after = [[3, 3, 1, 5, 5]], stdout = [], outcome = Inr [[3, 3, 1, 5, 5]]\<rparr>
   \<and> remove_small_grains example_pm ascending_iter [[3, 3, 1, 5, 5]] (- 4)
     = \<lparr>arg_after = [[3, 3, 1, 5, 5]], stdout = [], outcome = Inr [[3, 3, 1, 5, 5]]\<rparr>
   \<and> outcome (clean_pixel_grid example_pm zero_draws []) = Inl IndexError
   \<and> clean_pixel_grid example_pm zero_draws ragged_grid
     = \<lparr>arg_after = [[5, 5, 5], [5, 5, 5], [5, 5, 5], [5]], stdout = [], outcome = Inl IndexError\<rparr>
   \<and> arg_after (clean_pixel_grid example_pm zero_draws ragged_grid) \<noteq> ragged_grid"
  by code_simp

section \<open>Unoriented material in the ID list\<close>

lemma for_each_error:
  assumes "for_each f ps s = Inl (e, t)"
    and "\<And>p u e'. p \<in> set ps \<Longrightarrow> f p u = Inl e' \<Longrightarrow> e' = e0"
  shows "e = e0"
  using assms
proof (induction ps arbitrary: s)
  case Nil
  then show ?case by simp
next
  case (Cons q qs)
  show ?case
  proof (cases "f q s")
    case (Inl e')
    with Cons.prems(1) have "e' = e" by simp
    moreover from Cons.prems(2)[of q s e'] Inl have "e' = e0" by simp
    ultimately show ?thesis by simp
  next
    case (Inr s')
    with Cons.prems(1) have rest: "for_each f qs s' = Inl (e, t)" by simp
    show ?thesis
    proof (rule Cons.IH[OF rest])
      fix p u e' assume "p \<in> set qs" "f p u = Inl e'"
      then show "e' = e0" using Cons.prems(2)[of p u e'] by simp
    qed
  qed
qed

lemma identify_j_error:
  assumes "identify_j ar gm thr id_i o1 id_j mm = Inl e" and "3 \<le> length o1"
    and "\<And>o2. gm id_j = Some o2 \<Longrightarrow> 3 \<le> length o2"
  shows "e = KeyError"
proof (cases "gm id_j")
  case None
  with assms(1) show ?thesis by (simp add: identify_j_def)
next
  case (Some o2)
  from assms(3)[OF Some] assms(2) have "orientation_error ar o1 o2 \<noteq> Inl IndexError"
    by (simp add: orientation_error_def)
  with assms(1) Some assms(2) assms(3)[OF Some] show ?thesis
    by (simp add: identify_j_def orientation_error_def)
qed

lemma identify_i_error:
  assumes st: "identify_i ar gm thr ids i mm = Inl e" and i: "i < length ids"
    and len: "\<And>j o2. j \<in> set ids \<Longrightarrow> gm j = Some o2 \<Longrightarrow> 3 \<le> length o2"
  shows "e = KeyError"
proof (cases "gm (ids ! i)")
  case None
  with st show ?thesis by (simp add: identify_i_def)
next
  case (Some o1)
  from i have mem: "ids ! i \<in> set ids" by simp
  show ?thesis
  proof (cases "for_each (identify_j ar gm thr (ids ! i) o1) (drop (i + 1) ids) mm")
    case (Inl x)
    obtain e' t where x: "x = (e', t)" by (cases x)
    from st Some Inl x have e: "e' = e" by (simp add: identify_i_def)
    from Inl x have loop: "for_each (identify_j ar gm thr (ids ! i) o1) (drop (i + 1) ids) mm = Inl (e', t)"
      by simp
    have "e' = KeyError"
    proof (rule for_each_error[OF loop])
      fix p u e''
      assume p: "p \<in> set (drop (i + 1) ids)"
        and f: "identify_j ar gm thr (ids ! i) o1 p u = Inl e''"
      from p have pm: "p \<in> set ids" by (rule in_set_dropD)
      show "e'' = KeyError"
        by (rule identify_j_error[OF f len[OF mem Some]]) (rule len[OF pm])
    qed
    with e show ?thesis by simp
  next
    case (Inr mm')
    with st Some show ?thesis by (simp add: identify_i_def)
  qed
qed

lemma merge_grains_key_error:
  assumes ok: "set_iter_ok set_iter"
    and occ: "v \<in> set (concat g)" and nv: "v \<noteq> VOID_PIXEL_ID pm"
    and none: "gm v = None"
    and ho: "has_orientations gm (removeAll v (fst (get_sorted_grain_id_list pm set_iter g)))"
  shows "merge_grains pm set_iter ar g gm thr = \<lparr>arg_after = g, stdout = [], outcome = Inl KeyError\<rparr>"
proof -
  let ?ids = "fst (get_sorted_grain_id_list pm set_iter g)"
  have len: "3 \<le> length o2" if "gm j = Some o2" "j \<in> set ?ids" for j o2
  proof -
    from that none have "j \<noteq> v" by auto
    with that(2) have "j \<in> set (removeAll v ?ids)" by simp
    from has_orientationsD[OF ho this] that(1) show ?thesis by simp
  qed
  have "v \<in> set ?ids" using occ nv by (simp add: id_list_props(1)[OF ok])
  then obtain i where i: "i < length ?ids" and v: "?ids ! i = v"
    by (auto simp: in_set_conv_nth)
  have fail: "identify_i ar gm thr ?ids i t = Inl KeyError" for t
    by (simp add: identify_i_def v none)
  obtain x where x: "for_each (identify_i ar gm thr ?ids) [0..<length ?ids] [] = Inl x"
  proof (cases "for_each (identify_i ar gm thr ?ids) [0..<length ?ids] []")
    case (Inl x)
    then show ?thesis by (rule that)
  next
    case (Inr mm)
    have "i \<in> set [0..<length ?ids]" using i by simp
    from for_each_Inr_step[OF Inr this] fail show ?thesis by simp
  qed
  obtain e t where xe: "x = (e, t)" by (cases x)
  from x xe have loop: "for_each (identify_i ar gm thr ?ids) [0..<length ?ids] [] = Inl (e, t)"
    by simp
  have "e = KeyError"
  proof (rule for_each_error[OF loop])
    fix p u e'
    assume p: "p \<in> set [0..<length ?ids]" and f: "identify_i ar gm thr ?ids p u = Inl e'"
    from p have pl: "p < length ?ids" by simp
    show "e' = KeyError"
      by (rule identify_i_error[OF f pl]) (rule len)
  qed
  with loop show ?thesis unfolding merge_grains_cases by simp
qed

lemma merge_grains_total:
  assumes ok: "set_iter_ok set_iter" and rect: "rectangular g"
    and ho: "has_orientations gm (fst (get_sorted_grain_id_list pm set_iter g))"
  shows "outcome (merge_grains pm set_iter ar g gm thr)
     = Inr (apply_merges (merge_map_spec ar gm thr (fst (get_sorted_grain_id_list pm set_iter g))) g)"
proof -
  let ?ids = "fst (get_sorted_grain_id_list pm set_iter g)"
  have d: "distinct ?ids" by (rule id_list_props(2)[OF ok])
  have ident: "for_each (identify_i ar gm thr ?ids) [0..<length ?ids] [] = Inr (merge_map_spec ar gm thr ?ids)"
    by (rule identify_total[OF d ho])
  have app: "for_each (merge_key g) (merge_map_spec ar gm thr ?ids) g
      = Inr (apply_merges (merge_map_spec ar gm thr ?ids) g)"
    using rect by (intro apply_loop[OF rectangular_case_shape refl])
  show ?thesis unfolding merge_grains_cases by (simp add: ident app)
qed

text \<open>
  Claim C10: \<^verbatim>\<open>get_sorted_grain_id_list\<close> removes only the void sentinel from the ID list,
  so the ID of unoriented material, when it occurs in the grid, is in the list, and the two
  passes that loop over the list treat it as any grain ID. \<^verbatim>\<open>remove_small_grains\<close> on a
  rectangular grid does what \<open>remove_small_grains_spec\<close> says, whose turns are those of
  all the IDs but the void one: when the count of the unoriented ID in the input is below
  the threshold, no pixel of the returned grid holds it; when the count is at least the
  threshold, each of its pixels keeps it. \<^verbatim>\<open>merge_grains\<close> looks the orientation of the ID
  up in the grain map: when the map has none (and has one for every other ID of the grid)
  the pass raises \<open>KeyError\<close>, with nothing printed; when the map has one for every ID, the
  pass returns the grid merged by the merge map of all the IDs of the list. Neither pass
  looks at which ID the constant names: their results do not change with the constant.
\<close>

theorem unoriented_is_ordinary_grain:
  assumes "set_iter_ok set_iter"
    and "UNORIENTED_PIXEL_ID pm \<in> set (concat g)"
    and "UNORIENTED_PIXEL_ID pm \<noteq> VOID_PIXEL_ID pm"
  shows "set (fst (get_sorted_grain_id_list pm set_iter g)) = set (concat g) - {VOID_PIXEL_ID pm}
   \<and> UNORIENTED_PIXEL_ID pm \<in> set (fst (get_sorted_grain_id_list pm set_iter g))
   \<and> (rectangular g \<longrightarrow>
        (case remove_small_grains_spec pm set_iter g threshold of
           None \<Rightarrow> outcome (remove_small_grains pm set_iter g threshold) = Inl ValueError
         | Some h \<Rightarrow> remove_small_grains pm set_iter g threshold
                        = \<lparr>arg_after = h, stdout = [], outcome = Inr h\<rparr>))
   \<and> (rectangular g \<and> outcome (remove_small_grains pm set_iter g threshold) = Inr g'
        \<and> int (count_list (concat g) (UNORIENTED_PIXEL_ID pm)) < threshold \<longrightarrow>
        UNORIENTED_PIXEL_ID pm \<notin> set (concat g'))
   \<and> (outcome (remove_small_grains pm set_iter g threshold) = Inr g'
        \<and> threshold \<le> int (count_list (concat g) (UNORIENTED_PIXEL_ID pm)) \<longrightarrow>
        (\<forall>r c. g ! r ! c = UNORIENTED_PIXEL_ID pm \<longrightarrow> g' ! r ! c = UNORIENTED_PIXEL_ID pm))
   \<and> (gm (UNORIENTED_PIXEL_ID pm) = None
        \<and> has_orientations gm
             (removeAll (UNORIENTED_PIXEL_ID pm) (fst (get_sorted_grain_id_list pm set_iter g))) \<longrightarrow>
        merge_grains pm set_iter ar g gm thr
          = \<lparr>arg_after = g, stdout = [], outcome = Inl KeyError\<rparr>)
   \<and> (rectangular g \<and> has_orientations gm (fst (get_sorted_grain_id_list pm set_iter g)) \<longrightarrow>
        outcome (merge_grains pm set_iter ar g gm thr)
          = Inr (apply_merges
                   (merge_map_spec ar gm thr (fst (get_sorted_grain_id_list pm set_iter g))) g))
   \<and> remove_small_grains (pm\<lparr>UNORIENTED_PIXEL_ID := u\<rparr>) set_iter g threshold
       = remove_small_grains pm set_iter g threshold
   \<and> merge_grains (pm\<lparr>UNORIENTED_PIXEL_ID := u\<rparr>) set_iter ar g gm thr
       = merge_grains pm set_iter ar g gm thr"
proof (intro conjI impI)
  show ids: "set (fst (get_sorted_grain_id_list pm set_iter g)) = set (concat g) - {VOID_PIXEL_ID pm}"
    by (rule id_list_props(1)[OF assms(1)])
  from assms(2,3) show "UNORIENTED_PIXEL_ID pm \<in> set (fst (get_sorted_grain_id_list pm set_iter g))"
    unfolding ids by simp
next
  assume rect: "rectangular g"
  from assms(2) have "g \<noteq> []" by auto
  with assms(1) rect
  show "case remove_small_grains_spec pm set_iter g threshold of
           None \<Rightarrow> outcome (remove_small_grains pm set_iter g threshold) = Inl ValueError
         | Some h \<Rightarrow> remove_small_grains pm set_iter g threshold
                        = \<lparr>arg_after = h, stdout = [], outcome = Inr h\<rparr>"
    by (rule remove_small_grains_total)
next
  assume a: "rectangular g \<and> outcome (remove_small_grains pm set_iter g threshold) = Inr g'
        \<and> int (count_list (concat g) (UNORIENTED_PIXEL_ID pm)) < threshold"
  then have rect: "rectangular g"
    and res: "outcome (remove_small_grains pm set_iter g threshold) = Inr g'"
    and small: "int (count_list (concat g) (UNORIENTED_PIXEL_ID pm)) < threshold"
    by simp_all
  show "UNORIENTED_PIXEL_ID pm \<notin> set (concat g')"
  proof
    assume "UNORIENTED_PIXEL_ID pm \<in> set (concat g')"
    from remove_small_grains_survivors[OF assms(1) rect res this assms(3)] small
    show False by simp
  qed
next
  assume a: "outcome (remove_small_grains pm set_iter g threshold) = Inr g'
        \<and> threshold \<le> int (count_list (concat g) (UNORIENTED_PIXEL_ID pm))"
  then have res: "outcome (remove_small_grains pm set_iter g threshold) = Inr g'"
    and big: "threshold \<le> int (count_list (concat g) (UNORIENTED_PIXEL_ID pm))"
    by simp_all
  show "\<forall>r c. g ! r ! c = UNORIENTED_PIXEL_ID pm \<longrightarrow> g' ! r ! c = UNORIENTED_PIXEL_ID pm"
    using remove_small_grains_keeps(2)[OF res big] by blast
next
  assume a: "gm (UNORIENTED_PIXEL_ID pm) = None
        \<and> has_orientations gm
             (removeAll (UNORIENTED_PIXEL_ID pm) (fst (get_sorted_grain_id_list pm set_iter g)))"
  then have none: "gm (UNORIENTED_PIXEL_ID pm) = None"
    and ho: "has_orientations gm
             (removeAll (UNORIENTED_PIXEL_ID pm) (fst (get_sorted_grain_id_list pm set_iter g)))"
    by simp_all
  show "merge_grains pm set_iter ar g gm thr = \<lparr>arg_after = g, stdout = [], outcome = Inl KeyError\<rparr>"
    by (rule merge_grains_key_error[OF assms none ho])
next
  assume a: "rectangular g \<and> has_orientations gm (fst (get_sorted_grain_id_list pm set_iter g))"
  then have rect: "rectangular g"
    and ho: "has_orientations gm (fst (get_sorted_grain_id_list pm set_iter g))"
    by simp_all
  show "outcome (merge_grains pm set_iter ar g gm thr)
          = Inr (apply_merges
                   (merge_map_spec ar gm thr (fst (get_sorted_grain_id_list pm set_iter g))) g)"
    by (rule merge_grains_total[OF assms(1) rect ho])
next
  show "remove_small_grains (pm\<lparr>UNORIENTED_PIXEL_ID := u\<rparr>) set_iter g threshold
       = remove_small_grains pm set_iter g threshold"
    by (rule remove_small_grains_pm_update)
  show "merge_grains (pm\<lparr>UNORIENTED_PIXEL_ID := u\<rparr>) set_iter ar g gm thr
       = merge_grains pm set_iter ar g gm thr"
    by (rule merge_grains_pm_update)
qed

theorem unoriented_is_ordinary_grain_witness:
  "set_iter_ok ascending_iter
   \<and> UNORIENTED_PIXEL_ID example_pm \<in> set (concat unoriented_grid)
   \<and> UNORIENTED_PIXEL_ID example_pm \<noteq> VOID_PIXEL_ID example_pm
   \<and> rectangular unoriented_grid
   \<and> fst (get_sorted_grain_id_list example_pm ascending_iter unoriented_grid) = [1, 5, 9]
   \<and> UNORIENTED_PIXEL_ID example_pm
        \<in> set (fst (get_sorted_grain_id_list example_pm ascending_iter unoriented_grid))
   \<and> int (count_list (concat unoriented_grid) (UNORIENTED_PIXEL_ID example_pm)) < 3
   \<and> remove_small_grains_spec example_pm ascending_iter unoriented_grid 3
       = Some [[0, 0, 0], [0, 0, 0]]
   \<and> remove_small_grains example_pm ascending_iter unoriented_grid 3
       = \<lparr>arg_after = [[0, 0, 0], [0, 0, 0]], stdout = [], outcome = Inr [[0, 0, 0], [0, 0, 0]]\<rparr>
   \<and> UNORIENTED_PIXEL_ID example_pm \<notin> set (concat [[0, 0, 0], [0, 0, 0]])
   \<and> 2 \<le> int (count_list (concat unoriented_grid) (UNORIENTED_PIXEL_ID example_pm))
   \<and> outcome (remove_small_grains example_pm ascending_iter unoriented_grid 2)
       = Inr [[9, 0, 5], [9, 5, 5]]
   \<and> unoriented_grid ! 1 ! 0 = UNORIENTED_PIXEL_ID example_pm
   \<and> [[9, 0, 5], [9, 5, 5]] ! 1 ! 0 = UNORIENTED_PIXEL_ID example_pm
   \<and> oriented_grain_map (UNORIENTED_PIXEL_ID example_pm) = None
   \<and> has_orientations oriented_grain_map
        (removeAll (UNORIENTED_PIXEL_ID example_pm)
           (fst (get_sorted_grain_id_list example_pm ascending_iter unoriented_grid)))
   \<and> merge_grains example_pm ascending_iter exact_arithmetic unoriented_grid oriented_grain_map 10
       = \<lparr>arg_after = unoriented_grid, stdout = [], outcome = Inl KeyError\<rparr>
   \<and> has_orientations unoriented_grain_map
        (fst (get_sorted_grain_id_list example_pm ascending_iter unoriented_grid))
   \<and> merge_map_spec exact_arithmetic unoriented_grain_map 1000 [1, 5, 9] = [(1, [5, 9]), (5, [9])]
   \<and> outcome (merge_grains example_pm ascending_iter exact_arithmetic unoriented_grid
                unoriented_grain_map 1000)
       = Inr [[1, 0, 1], [1, 1, 1]]"
proof -
  have occ: "UNORIENTED_PIXEL_ID example_pm \<in> set (concat unoriented_grid)"
    by (simp add: example_pm_def unoriented_grid_def)
  have nv: "UNORIENTED_PIXEL_ID example_pm \<noteq> VOID_PIXEL_ID example_pm"
    by (simp add: example_pm_def)
  have rect: "rectangular unoriented_grid" by (simp add: rectangular_def unoriented_grid_def)
  have ids: "fst (get_sorted_grain_id_list example_pm ascending_iter unoriented_grid) = [1, 5, 9]"
    by code_simp
  have small: "int (count_list (concat unoriented_grid) (UNORIENTED_PIXEL_ID example_pm)) < 3"
    by (simp add: example_pm_def unoriented_grid_def)
  have spec: "remove_small_grains_spec example_pm ascending_iter unoriented_grid 3
       = Some [[0, 0, 0], [0, 0, 0]]"
    by code_simp
  have none: "oriented_grain_map (UNORIENTED_PIXEL_ID example_pm) = None"
    by (simp add: oriented_grain_map_def example_pm_def)
  have ho1: "has_orientations oriented_grain_map
        (removeAll (UNORIENTED_PIXEL_ID example_pm)
           (fst (get_sorted_grain_id_list example_pm ascending_iter unoriented_grid)))"
    unfolding ids by (simp add: has_orientations_def oriented_grain_map_def example_pm_def)
  have ho2: "has_orientations unoriented_grain_map
        (fst (get_sorted_grain_id_list example_pm ascending_iter unoriented_grid))"
    unfolding ids by (simp add: has_orientations_def unoriented_grain_map_def)
  have mm: "merge_map_spec exact_arithmetic unoriented_grain_map 1000 [1, 5, 9]
      = [(1, [5, 9]), (5, [9])]"
    by code_simp
  have ap: "apply_merges [(1, [5, 9]), (5, [9])] unoriented_grid = [[1, 0, 1], [1, 1, 1]]"
    by code_simp
  note T1 = unoriented_is_ordinary_grain[OF set_iter_ok_ascending occ nv,
      where threshold = 3 and g' = "[[0, 0, 0], [0, 0, 0]]" and ar = exact_arithmetic
      and gm = oriented_grain_map and thr = 10 and u = 9]
  note T2 = unoriented_is_ordinary_grain[OF set_iter_ok_ascending occ nv,
      where threshold = 3 and g' = "[[0, 0, 0], [0, 0, 0]]" and ar = exact_arithmetic
      and gm = unoriented_grain_map and thr = 1000 and u = 9]
  from T1 have mem: "UNORIENTED_PIXEL_ID example_pm
        \<in> set (fst (get_sorted_grain_id_list example_pm ascending_iter unoriented_grid))"
    by blast
  from T1 rect have "case remove_small_grains_spec example_pm ascending_iter unoriented_grid 3 of
           None \<Rightarrow> outcome (remove_small_grains example_pm ascending_iter unoriented_grid 3)
                     = Inl ValueError
         | Some h \<Rightarrow> remove_small_grains example_pm ascending_iter unoriented_grid 3
                        = \<lparr>arg_after = h, stdout = [], outcome = Inr h\<rparr>"
    by blast
  then have run: "remove_small_grains example_pm ascending_iter unoriented_grid 3
       = \<lparr>arg_after = [[0, 0, 0], [0, 0, 0]], stdout = [], outcome = Inr [[0, 0, 0], [0, 0, 0]]\<rparr>"
    by (simp only: spec option.case)
  then have res: "outcome (remove_small_grains example_pm ascending_iter unoriented_grid 3)
       = Inr [[0, 0, 0], [0, 0, 0]]"
    by simp
  from T1 rect res small
  have gone: "UNORIENTED_PIXEL_ID example_pm \<notin> set (concat [[0, 0, 0], [0, 0, 0]])"
    by blast
  have big: "2 \<le> int (count_list (concat unoriented_grid) (UNORIENTED_PIXEL_ID example_pm))"
    by (simp add: example_pm_def unoriented_grid_def)
  have res2: "outcome (remove_small_grains example_pm ascending_iter unoriented_grid 2)
       = Inr [[9, 0, 5], [9, 5, 5]]"
    by code_simp
  have cell: "unoriented_grid ! 1 ! 0 = UNORIENTED_PIXEL_ID example_pm"
    by (simp add: example_pm_def unoriented_grid_def)
  note T3 = unoriented_is_ordinary_grain[OF set_iter_ok_ascending occ nv,
      where threshold = 2 and g' = "[[9, 0, 5], [9, 5, 5]]" and ar = exact_arithmetic
      and gm = oriented_grain_map and thr = 10 and u = 9]
  from T3 res2 big cell
  have kept: "[[9, 0, 5], [9, 5, 5]] ! 1 ! 0 = UNORIENTED_PIXEL_ID example_pm"
    by blast
  from T1 none ho1
  have ke: "merge_grains example_pm ascending_iter exact_arithmetic unoriented_grid oriented_grain_map 10
       = \<lparr>arg_after = unoriented_grid, stdout = [], outcome = Inl KeyError\<rparr>"
    by blast
  from T2 rect ho2
  have "outcome (merge_grains example_pm ascending_iter exact_arithmetic unoriented_grid
                unoriented_grain_map 1000)
       = Inr (apply_merges
                (merge_map_spec exact_arithmetic unoriented_grain_map 1000
                   (fst (get_sorted_grain_id_list example_pm ascending_iter unoriented_grid)))
                unoriented_grid)"
    by blast
  then have mg: "outcome (merge_grains example_pm ascending_iter exact_arithmetic unoriented_grid
                unoriented_grain_map 1000)
       = Inr [[1, 0, 1], [1, 1, 1]]"
    by (simp only: ids mm ap)
  from set_iter_ok_ascending occ nv rect ids mem small spec run gone big res2 cell kept
    none ho1 ke ho2 mm mg
  show ?thesis by blast
qed


end
